theory Spec2Isabelle
  imports Complex_Main "HOL-Library.AList" "HOL-Library.Extended_Nat" "HOL-Library.Product_Lexorder"
begin

section \<open>Enumerations and basic data (tms\_system.py, lines 24--79)\<close>

datatype TaskStatus = PENDING | IN_PROGRESS | COMPLETED | FAILED | CANCELLED

datatype TaskType = SHIP_TRANSPORT | INTERNAL_TRANSFER | LOADING | UNLOADING | MOVE_EQUIPMENT

datatype EquipmentStatus = IDLE | BUSY | MAINTENANCE | ERROR

text \<open>
  A \<open>Position\<close> is a dataclass of two Python integers with structural equality and no
  ordering methods. The keys \<open>(x, y)\<close> of the planner's dictionaries are the same pairs.
\<close>

type_synonym Position = "int \<times> int"

definition distance_to :: "Position \<Rightarrow> Position \<Rightarrow> int" where
  "distance_to a b = \<bar>fst a - fst b\<bar> + \<bar>snd a - snd b\<bar>"

text \<open>
  Python dictionaries keep insertion order; they are association lists here.
  \<open>d[k] = v\<close> is \<open>AList.update k v d\<close> (in place for a present key, appended for a
  new one), \<open>del d[k]\<close> is \<open>AList.delete k d\<close>, \<open>k in d\<close> and \<open>d[k]\<close> read
  \<open>map_of d k\<close>.
\<close>

definition dict_get :: "('k \<times> 'v) list \<Rightarrow> 'k \<Rightarrow> 'v \<Rightarrow> 'v" where
  "dict_get d k dflt = (case map_of d k of None \<Rightarrow> dflt | Some v \<Rightarrow> v)"

subsection \<open>Python floats\<close>

text \<open>
  Weights, volumes and capacities are Python floats, that is IEEE 754 doubles. A finite
  double is represented by the rational number it denotes. An arithmetic operation on
  doubles is the exact operation followed by \<open>round_double\<close>: rounding to the nearest
  number with a 53-bit significand, ties to the even significand, with the spacing
  \<open>2\<^sup>-\<^sup>1\<^sup>0\<^sup>7\<^sup>4\<close> of the subnormal numbers below \<open>2\<^sup>-\<^sup>1\<^sup>0\<^sup>2\<^sup>2\<close>. \<open>binade x\<close> is the
  exponent \<open>k\<close> with \<open>2\<^sup>k \<le> x < 2\<^sup>k\<^sup>+\<^sup>1\<close>. In \<open>volume * quantity\<close> Python first
  converts the integer to a double, which rounds it in the same way. Comparisons of
  finite doubles are the comparisons of the rationals.

  The model has no largest double: results beyond about \<open>1.8e308\<close>, where Python gives
  an infinity or, on converting an integer, raises OverflowError, and the values
  \<open>inf\<close> and \<open>nan\<close> themselves, are outside it.
\<close>

definition pow2 :: "int \<Rightarrow> rat" where
  "pow2 e = (if 0 \<le> e then 2 ^ nat e else 1 / 2 ^ nat (- e))"

function bit_length :: "int \<Rightarrow> nat" where
  "bit_length n = (if n \<le> 0 then 0 else Suc (bit_length (n div 2)))"
  by pat_completeness auto
termination
  by (relation "measure nat") auto

declare bit_length.simps [simp del]

definition binade :: "rat \<Rightarrow> int" where
  "binade x =
     (if 1 \<le> x then int (bit_length \<lfloor>x\<rfloor>) - 1
      else - int (bit_length (\<lceil>1 / x\<rceil> - 1)))"

definition round_half_even :: "rat \<Rightarrow> int" where
  "round_half_even x =
     (let f = \<lfloor>x\<rfloor>; d = x - of_int f in
      if d < 1 / 2 then f
      else if 1 / 2 < d then f + 1
      else if even f then f else f + 1)"

definition round_double :: "rat \<Rightarrow> rat" where
  "round_double x =
     (if x = 0 then 0
      else let e = max (binade \<bar>x\<bar>) (- 1022) - 52
           in of_int (round_half_even (x / pow2 e)) * pow2 e)"

definition fl_add :: "rat \<Rightarrow> rat \<Rightarrow> rat" where
  "fl_add a b = round_double (a + b)"

definition fl_sub :: "rat \<Rightarrow> rat \<Rightarrow> rat" where
  "fl_sub a b = round_double (a - b)"

definition fl_mul :: "rat \<Rightarrow> rat \<Rightarrow> rat" where
  "fl_mul a b = round_double (a * b)"

definition fl_of_int :: "int \<Rightarrow> rat" where
  "fl_of_int n = round_double (of_int n)"

record Product =
  product_name :: string
  weight :: rat
  volume :: rat

section \<open>Warehouses (lines 213--267)\<close>

datatype WarehouseClass = TerminalWarehouse | ProductWarehouse

record Warehouse =
  warehouse_name :: string
  warehouse_position :: Position
  capacity :: rat
  warehouse_class :: WarehouseClass
  products :: "(string \<times> int) list"
  current_volume :: rat

definition Warehouse_init :: "string \<Rightarrow> Position \<Rightarrow> rat \<Rightarrow> WarehouseClass \<Rightarrow> Warehouse" where
  "Warehouse_init nm pos cap cls =
     \<lparr>warehouse_name = nm, warehouse_position = pos, capacity = cap, warehouse_class = cls,
      products = [], current_volume = 0\<rparr>"

definition add_product :: "Warehouse \<Rightarrow> string \<Rightarrow> int \<Rightarrow> rat \<Rightarrow> bool \<times> Warehouse" where
  "add_product w product_id quantity product_volume =
     (let total_volume = fl_mul product_volume (fl_of_int quantity) in
      if fl_add (current_volume w) total_volume > capacity w then (False, w)
      else (True, w\<lparr>products := AList.update product_id
                                   (dict_get (products w) product_id 0 + quantity) (products w),
                     current_volume := fl_add (current_volume w) total_volume\<rparr>))"

definition remove_product :: "Warehouse \<Rightarrow> string \<Rightarrow> int \<Rightarrow> rat \<Rightarrow> bool \<times> Warehouse" where
  "remove_product w product_id quantity product_volume =
     (case map_of (products w) product_id of
        None \<Rightarrow> (False, w)
      | Some stored \<Rightarrow>
          if stored < quantity then (False, w)
          else
            let ps = AList.update product_id (stored - quantity) (products w);
                ps' = (if stored - quantity = 0 then AList.delete product_id ps else ps)
            in (True, w\<lparr>products := ps',
                         current_volume :=
                           fl_sub (current_volume w)
                             (fl_mul product_volume (fl_of_int quantity))\<rparr>))"

subsection \<open>Sequences of warehouse calls\<close>

datatype WarehouseCall = Add string int | Remove string int

fun call_quantity :: "WarehouseCall \<Rightarrow> int" where
  "call_quantity (Add p q) = q"
| "call_quantity (Remove p q) = q"

text \<open>Every call passes the unit volume \<open>vol p\<close> that is fixed for its product.\<close>

fun apply_call :: "(string \<Rightarrow> rat) \<Rightarrow> Warehouse \<Rightarrow> WarehouseCall \<Rightarrow> Warehouse" where
  "apply_call vol w (Add p q) = snd (add_product w p q (vol p))"
| "apply_call vol w (Remove p q) = snd (remove_product w p q (vol p))"

definition apply_calls :: "(string \<Rightarrow> rat) \<Rightarrow> Warehouse \<Rightarrow> WarehouseCall list \<Rightarrow> Warehouse" where
  "apply_calls vol w cs = foldl (apply_call vol) w cs"

definition stored_volume :: "(string \<Rightarrow> rat) \<Rightarrow> (string \<times> int) list \<Rightarrow> rat" where
  "stored_volume vol ps = (\<Sum>(p, q) \<leftarrow> ps. vol p * of_int q)"

definition volume_invariant :: "(string \<Rightarrow> rat) \<Rightarrow> Warehouse \<Rightarrow> bool" where
  "volume_invariant vol w \<longleftrightarrow>
     current_volume w = stored_volume vol (products w) \<and>
     0 \<le> current_volume w \<and> current_volume w \<le> capacity w"


section \<open>Faults\<close>

text \<open>
  The exceptions the modelled code can raise. \<open>KeyError k\<close> is a dictionary read of the
  missing key \<open>k\<close>; \<open>TypeError\<close> is the unsupported \<open><\<close> between two \<open>Position\<close>
  objects; \<open>IndexError\<close> is a pop from an empty list; \<open>PersistenceError\<close> stands for
  any exception of the database layer.
\<close>

datatype Fault = KeyError string | TypeError | IndexError | PersistenceError

section \<open>Equipment (lines 82--210)\<close>

datatype EquipmentClass = Crane | FrameTruck | Frame

record Equipment =
  equipment_name :: string
  equipment_position :: Position
  status :: EquipmentStatus
  current_task_id :: "string option"
  equipment_class :: EquipmentClass
  equipment_capacity :: rat
  current_load :: rat

fun can_perform_task :: "EquipmentClass \<Rightarrow> TaskType \<Rightarrow> bool" where
  "can_perform_task Crane t = (t \<in> set [LOADING, UNLOADING, MOVE_EQUIPMENT])"
| "can_perform_task FrameTruck t = (t \<in> set [SHIP_TRANSPORT, INTERNAL_TRANSFER])"
| "can_perform_task Frame t = False"

definition load_product :: "Equipment \<Rightarrow> Product \<Rightarrow> int \<Rightarrow> bool \<times> Equipment" where
  "load_product eq product quantity =
     (let total_weight = fl_mul (weight product) (fl_of_int quantity) in
      if fl_add (current_load eq) total_weight > equipment_capacity eq then (False, eq)
      else (True, eq\<lparr>current_load := fl_add (current_load eq) total_weight\<rparr>))"

definition unload_product :: "Equipment \<Rightarrow> Product \<Rightarrow> int \<Rightarrow> bool \<times> Equipment" where
  "unload_product eq product quantity =
     (let total_weight = fl_mul (weight product) (fl_of_int quantity) in
      if current_load eq < total_weight then (False, eq)
      else (True, eq\<lparr>current_load := fl_sub (current_load eq) total_weight\<rparr>))"

section \<open>Tasks (lines 270--310)\<close>

text \<open>
  The metadata dictionary is modelled by one optional field per key the core reads or
  writes. \<open>failure_reason\<close> holds the exception whose \<open>str\<close> the source stores.
  A deadline is a point in time, a natural number. The wall-clock timestamps
  \<open>created_at\<close>, \<open>start_time\<close> and \<open>end_time\<close> are not modelled. A task's id is the
  key under which the task store holds it.
\<close>

record Task =
  task_type :: TaskType
  priority :: int
  task_status :: TaskStatus
  deadline :: "nat option"
  assigned_equipment :: "string option"
  md_source_warehouse_id :: "string option"
  md_target_warehouse_id :: "string option"
  md_products :: "(string \<times> int) list option"
  md_product_id :: "string option"
  md_quantity :: "int option"
  md_failure_reason :: "Fault option"

definition start_execution :: "Task \<Rightarrow> Task" where
  "start_execution t = t\<lparr>task_status := IN_PROGRESS\<rparr>"

definition complete_task :: "Task \<Rightarrow> Task" where
  "complete_task t = t\<lparr>task_status := COMPLETED\<rparr>"

definition fail_task :: "Fault \<Rightarrow> Task \<Rightarrow> Task" where
  "fail_task reason t = t\<lparr>task_status := FAILED, md_failure_reason := Some reason\<rparr>"

section \<open>Path planner (lines 328--395)\<close>

definition heuristic :: "Position \<Rightarrow> Position \<Rightarrow> int" where
  "heuristic pos1 pos2 = \<bar>fst pos1 - fst pos2\<bar> + \<bar>snd pos1 - snd pos2\<bar>"

definition directions :: "(int \<times> int) list" where
  "directions = [(0, 1), (1, 0), (0, -1), (-1, 0)]"

definition get_neighbors :: "int \<Rightarrow> int \<Rightarrow> Position set \<Rightarrow> Position \<Rightarrow> Position list" where
  "get_neighbors grid_width grid_height obstacles position =
     filter (\<lambda>(new_x, new_y). 0 \<le> new_x \<and> new_x < grid_width \<and>
                               0 \<le> new_y \<and> new_y < grid_height \<and>
                               (new_x, new_y) \<notin> obstacles)
            (map (\<lambda>(dx, dy). (fst position + dx, snd position + dy)) directions)"

subsection \<open>The open set: \<open>heapq\<close> on tuples \<open>(f, Position)\<close>\<close>

text \<open>
  \<open>heapq\<close> compares entries with \<open><\<close>. On tuples Python looks for the first component
  where the two differ (by \<open>==\<close>) and compares there. Two entries with different f-scores
  are ordered by the scores. With equal scores and equal positions the tuples are equal
  and \<open><\<close> is false. With equal scores and different positions Python evaluates
  \<open>Position < Position\<close>; the dataclass defines no ordering, so this raises TypeError.
\<close>

type_synonym HeapItem = "int \<times> Position"

definition item_lt :: "HeapItem \<Rightarrow> HeapItem \<Rightarrow> Fault + bool" where
  "item_lt a b =
     (if fst a \<noteq> fst b then Inr (fst a < fst b)
      else if snd a = snd b then Inr False
      else Inl TypeError)"

text \<open>
  \<open>_siftdown(heap, startpos, pos)\<close>: the new item moves up towards \<open>startpos\<close> while
  it is smaller than its parent.
\<close>

function siftdown :: "HeapItem list \<Rightarrow> nat \<Rightarrow> nat \<Rightarrow> HeapItem \<Rightarrow> Fault + HeapItem list" where
  "siftdown heap startpos pos newitem =
     (if pos > startpos then
        (let parentpos = (pos - 1) div 2; parent = heap ! parentpos in
         case item_lt newitem parent of
           Inl e \<Rightarrow> Inl e
         | Inr lt \<Rightarrow>
             if lt then siftdown (heap[pos := parent]) startpos parentpos newitem
             else Inr (heap[pos := newitem]))
      else Inr (heap[pos := newitem]))"
  by pat_completeness auto
termination
  by (relation "measure (\<lambda>(heap, startpos, pos, newitem). pos)") auto

text \<open>
  \<open>_siftup(heap, pos)\<close>: the smaller child bubbles up until a leaf is reached, then the
  item is sifted down from the leaf.
\<close>

function siftup_loop :: "HeapItem list \<Rightarrow> nat \<Rightarrow> Fault + (HeapItem list \<times> nat)" where
  "siftup_loop heap pos =
     (let endpos = length heap; childpos = 2 * pos + 1 in
      if childpos < endpos then
        (let rightpos = childpos + 1 in
         case (if rightpos < endpos
               then (case item_lt (heap ! childpos) (heap ! rightpos) of
                       Inl e \<Rightarrow> Inl e
                     | Inr lt \<Rightarrow> Inr (if \<not> lt then rightpos else childpos))
               else Inr childpos) of
           Inl e \<Rightarrow> Inl e
         | Inr c \<Rightarrow> siftup_loop (heap[pos := heap ! c]) c)
      else Inr (heap, pos))"
  by pat_completeness auto
termination
  by (relation "measure (\<lambda>(heap, pos). length heap - pos)") (auto split: if_splits sum.splits)

declare siftdown.simps [simp del] siftup_loop.simps [simp del]

definition siftup :: "HeapItem list \<Rightarrow> nat \<Rightarrow> Fault + HeapItem list" where
  "siftup heap pos =
     (let newitem = heap ! pos in
      case siftup_loop heap pos of
        Inl e \<Rightarrow> Inl e
      | Inr (heap', pos') \<Rightarrow> siftdown (heap'[pos' := newitem]) pos pos' newitem)"

definition heappush :: "HeapItem list \<Rightarrow> HeapItem \<Rightarrow> Fault + HeapItem list" where
  "heappush heap item = siftdown (heap @ [item]) 0 (length heap) item"

definition heappop :: "HeapItem list \<Rightarrow> Fault + (HeapItem \<times> HeapItem list)" where
  "heappop heap =
     (if heap = [] then Inl IndexError
      else
        let lastelt = last heap; heap1 = butlast heap in
        if heap1 \<noteq> [] then
          (let returnitem = hd heap1 in
           case siftup (heap1[0 := lastelt]) 0 of
             Inl e \<Rightarrow> Inl e
           | Inr heap2 \<Rightarrow> Inr (returnitem, heap2))
        else Inr (lastelt, heap1))"

subsection \<open>A* search\<close>

record AStar =
  open_set :: "HeapItem list"
  came_from :: "Position \<rightharpoonup> Position"
  g_score :: "Position \<rightharpoonup> int"
  f_score :: "Position \<rightharpoonup> int"

text \<open>The body of \<open>for neighbor in self.get_neighbors(current)\<close>.\<close>

fun relax_neighbors :: "Position \<Rightarrow> Position \<Rightarrow> Position list \<Rightarrow> AStar \<Rightarrow> Fault + AStar" where
  "relax_neighbors goal current [] st = Inr st"
| "relax_neighbors goal current (neighbor # rest) st =
     (case g_score st current of
        None \<Rightarrow> Inl (KeyError ''g_score'')
      | Some g_current \<Rightarrow>
          let tentative_g_score = g_current + 1 in
          if (case g_score st neighbor of None \<Rightarrow> True | Some g \<Rightarrow> tentative_g_score < g) then
            (let f = tentative_g_score + heuristic neighbor goal in
             case heappush (open_set st) (f, neighbor) of
               Inl e \<Rightarrow> Inl e
             | Inr heap \<Rightarrow>
                 relax_neighbors goal current rest
                   (st\<lparr>open_set := heap,
                       came_from := (came_from st)(neighbor \<mapsto> current),
                       g_score := (g_score st)(neighbor \<mapsto> tentative_g_score),
                       f_score := (f_score st)(neighbor \<mapsto> f)\<rparr>))
          else relax_neighbors goal current rest st)"

text \<open>
  Path reconstruction: \<open>while current_pos in came_from\<close>. The loop need not end on an
  arbitrary predecessor map, so not returning is the value \<open>None\<close>.
\<close>

partial_function (option) reconstruct ::
  "(Position \<rightharpoonup> Position) \<Rightarrow> Position \<Rightarrow> Position list \<Rightarrow> Position list option" where
  "reconstruct cf current_pos path =
     (case cf current_pos of
        None \<Rightarrow> Some path
      | Some prev \<Rightarrow> reconstruct cf prev (path @ [current_pos]))"

text \<open>The main loop \<open>while open_set\<close>; \<open>None\<close> again means that it does not return.\<close>

partial_function (option) a_star_loop ::
  "int \<Rightarrow> int \<Rightarrow> Position set \<Rightarrow> Position \<Rightarrow> Position \<Rightarrow> AStar \<Rightarrow> (Fault + Position list) option" where
  "a_star_loop grid_width grid_height obstacles start goal st =
     (if open_set st = [] then Some (Inr [])
      else
        case heappop (open_set st) of
          Inl e \<Rightarrow> Some (Inl e)
        | Inr ((current_f, current), heap) \<Rightarrow>
            if current = goal then
              (case reconstruct (came_from st) current [] of
                 None \<Rightarrow> None
               | Some path \<Rightarrow> Some (Inr (rev (path @ [start]))))
            else
              (case relax_neighbors goal current
                      (get_neighbors grid_width grid_height obstacles current)
                      (st\<lparr>open_set := heap\<rparr>) of
                 Inl e \<Rightarrow> Some (Inl e)
               | Inr st' \<Rightarrow> a_star_loop grid_width grid_height obstacles start goal st'))"

definition a_star_path ::
  "int \<Rightarrow> int \<Rightarrow> Position set \<Rightarrow> Position \<Rightarrow> Position \<Rightarrow> (Fault + Position list) option" where
  "a_star_path grid_width grid_height obstacles start goal =
     (if start \<in> obstacles \<or> goal \<in> obstacles then Some (Inr [])
      else a_star_loop grid_width grid_height obstacles start goal
             \<lparr>open_set = [(0, start)], came_from = Map.empty,
              g_score = [start \<mapsto> 0], f_score = [start \<mapsto> heuristic start goal]\<rparr>)"

declare reconstruct.simps [code] a_star_loop.simps [code]

section \<open>The system (lines 521--831)\<close>

text \<open>
  The lines of the execution log are formatted strings; each format is a constructor
  holding the values it prints.
\<close>

datatype LogLine =
    LogTake string int string
  | LogTransfer string int string string
  | LogLoad string int string
  | LogUnload string int string

record TMSSystem =
  grid_size :: "int \<times> int"
  obstacles :: "Position set"
  tms_products :: "(string \<times> Product) list"
  warehouses :: "(string \<times> Warehouse) list"
  equipment :: "(string \<times> Equipment) list"
  tasks :: "(string \<times> Task) list"
  execution_log :: "LogLine list"

text \<open>
  The database layer is outside the model. A function that saves takes a flag
  \<open>save_ok\<close>: whether the save returns normally or raises.
\<close>

definition tms_add_product :: "bool \<Rightarrow> TMSSystem \<Rightarrow> string \<Rightarrow> Product \<Rightarrow> bool \<times> TMSSystem" where
  "tms_add_product save_ok s product_id product =
     (let s' = s\<lparr>tms_products := AList.update product_id product (tms_products s)\<rparr>
      in if save_ok then (True, s') else (False, s'))"

definition tms_add_warehouse :: "bool \<Rightarrow> TMSSystem \<Rightarrow> string \<Rightarrow> Warehouse \<Rightarrow> bool \<times> TMSSystem" where
  "tms_add_warehouse save_ok s warehouse_id warehouse =
     (let s' = s\<lparr>warehouses := AList.update warehouse_id warehouse (warehouses s)\<rparr>
      in if save_ok then (True, s') else (False, s'))"

definition tms_add_equipment :: "TMSSystem \<Rightarrow> string \<Rightarrow> Equipment \<Rightarrow> bool \<times> TMSSystem" where
  "tms_add_equipment s equipment_id eq =
     (True, s\<lparr>equipment := AList.update equipment_id eq (equipment s),
               obstacles := insert (equipment_position eq) (obstacles s)\<rparr>)"

definition assign_equipment_to_task :: "TMSSystem \<Rightarrow> string \<Rightarrow> string \<Rightarrow> bool \<times> TMSSystem" where
  "assign_equipment_to_task s task_id equipment_id =
     (case map_of (tasks s) task_id of
        None \<Rightarrow> (False, s)
      | Some task \<Rightarrow>
         (case map_of (equipment s) equipment_id of
            None \<Rightarrow> (False, s)
          | Some eq \<Rightarrow>
              if \<not> can_perform_task (equipment_class eq) (task_type task) then (False, s)
              else if status eq \<noteq> IDLE then (False, s)
              else (True,
                    s\<lparr>tasks := AList.update task_id
                                  (task\<lparr>assigned_equipment := Some equipment_id\<rparr>) (tasks s),
                      equipment := AList.update equipment_id
                                  (eq\<lparr>current_task_id := Some task_id, status := BUSY\<rparr>)
                                  (equipment s)\<rparr>)))"

subsection \<open>Effects of the task types\<close>

text \<open>
  An effect returns the exception it raised, if any, and the state as mutated up to
  that point.
\<close>

definition has_stock :: "Warehouse \<Rightarrow> string \<Rightarrow> int \<Rightarrow> bool" where
  "has_stock w product_id quantity =
     (case map_of (products w) product_id of None \<Rightarrow> False | Some stored \<Rightarrow> stored \<ge> quantity)"

definition ship_line :: "TMSSystem \<Rightarrow> string \<Rightarrow> int \<Rightarrow> Fault option \<times> TMSSystem" where
  "ship_line s product_id quantity =
     (case find (\<lambda>(wid, w). has_stock w product_id quantity)
                (filter (\<lambda>(wid, w). warehouse_class w = ProductWarehouse) (warehouses s)) of
        None \<Rightarrow> (None, s)
      | Some (wid, w) \<Rightarrow>
         (case map_of (tms_products s) product_id of
            None \<Rightarrow> (Some (KeyError product_id), s)
          | Some product \<Rightarrow>
              (None,
               s\<lparr>warehouses := AList.update wid
                    (snd (remove_product w product_id quantity (volume product))) (warehouses s),
                 execution_log := execution_log s @
                    [LogTake (warehouse_name w) quantity (product_name product)]\<rparr>)))"

fun ship_lines :: "TMSSystem \<Rightarrow> (string \<times> int) list \<Rightarrow> Fault option \<times> TMSSystem" where
  "ship_lines s [] = (None, s)"
| "ship_lines s ((product_id, quantity) # rest) =
     (case ship_line s product_id quantity of
        (Some e, s') \<Rightarrow> (Some e, s')
      | (None, s') \<Rightarrow> ship_lines s' rest)"

definition execute_ship_transport_task :: "TMSSystem \<Rightarrow> Task \<Rightarrow> Fault option \<times> TMSSystem" where
  "execute_ship_transport_task s task =
     ship_lines s (case md_products task of None \<Rightarrow> [] | Some ps \<Rightarrow> ps)"

text \<open>
  One product line of an internal transfer. The source and the target are objects
  of the registry, read again at each step: they may be one and the same warehouse.
\<close>

definition transfer_line ::
  "TMSSystem \<Rightarrow> string \<Rightarrow> string \<Rightarrow> string \<Rightarrow> int \<Rightarrow> Fault option \<times> TMSSystem" where
  "transfer_line s source_id target_id product_id quantity =
     (case map_of (warehouses s) source_id of
        None \<Rightarrow> (Some (KeyError source_id), s)
      | Some source_warehouse \<Rightarrow>
          if has_stock source_warehouse product_id quantity then
            (case map_of (tms_products s) product_id of
               None \<Rightarrow> (Some (KeyError product_id), s)
             | Some product \<Rightarrow>
                 let ws1 = AList.update source_id
                             (snd (remove_product source_warehouse product_id quantity
                                     (volume product))) (warehouses s)
                 in (case map_of ws1 target_id of
                       None \<Rightarrow> (Some (KeyError target_id), s\<lparr>warehouses := ws1\<rparr>)
                     | Some target_warehouse \<Rightarrow>
                         (None,
                          s\<lparr>warehouses := AList.update target_id
                               (snd (add_product target_warehouse product_id quantity
                                       (volume product))) ws1,
                            execution_log := execution_log s @
                               [LogTransfer (warehouse_name source_warehouse) quantity
                                  (product_name product) (warehouse_name target_warehouse)]\<rparr>)))
          else (None, s))"

fun transfer_lines ::
  "TMSSystem \<Rightarrow> string \<Rightarrow> string \<Rightarrow> (string \<times> int) list \<Rightarrow> Fault option \<times> TMSSystem" where
  "transfer_lines s source_id target_id [] = (None, s)"
| "transfer_lines s source_id target_id ((product_id, quantity) # rest) =
     (case transfer_line s source_id target_id product_id quantity of
        (Some e, s') \<Rightarrow> (Some e, s')
      | (None, s') \<Rightarrow> transfer_lines s' source_id target_id rest)"

definition execute_internal_transfer_task :: "TMSSystem \<Rightarrow> Task \<Rightarrow> Fault option \<times> TMSSystem" where
  "execute_internal_transfer_task s task =
     (case md_source_warehouse_id task of
        None \<Rightarrow> (Some (KeyError ''source_warehouse_id''), s)
      | Some source_id \<Rightarrow>
     (case md_target_warehouse_id task of
        None \<Rightarrow> (Some (KeyError ''target_warehouse_id''), s)
      | Some target_id \<Rightarrow>
     (case md_products task of
        None \<Rightarrow> (Some (KeyError ''products''), s)
      | Some lines \<Rightarrow>
          if map_of (warehouses s) source_id = None then (Some (KeyError source_id), s)
          else if map_of (warehouses s) target_id = None then (Some (KeyError target_id), s)
          else transfer_lines s source_id target_id lines)))"

definition execute_loading_task :: "TMSSystem \<Rightarrow> Task \<Rightarrow> Fault option \<times> TMSSystem" where
  "execute_loading_task s task =
     (case md_product_id task of
        None \<Rightarrow> (Some (KeyError ''product_id''), s)
      | Some product_id \<Rightarrow>
     (case md_quantity task of
        None \<Rightarrow> (Some (KeyError ''quantity''), s)
      | Some quantity \<Rightarrow>
     (case filter (\<lambda>(eid, eq). equipment_class eq = Crane \<and> status eq = IDLE) (equipment s) of
        [] \<Rightarrow> (None, s)
      | (crane_id, crane) # _ \<Rightarrow>
         (case map_of (tms_products s) product_id of
            None \<Rightarrow> (Some (KeyError product_id), s)
          | Some product \<Rightarrow>
              (None,
               s\<lparr>equipment := AList.update crane_id
                    (snd (load_product crane product quantity)) (equipment s),
                 execution_log := execution_log s @
                    [LogLoad (equipment_name crane) quantity (product_name product)]\<rparr>)))))"

definition execute_unloading_task :: "TMSSystem \<Rightarrow> Task \<Rightarrow> Fault option \<times> TMSSystem" where
  "execute_unloading_task s task =
     (case md_product_id task of
        None \<Rightarrow> (Some (KeyError ''product_id''), s)
      | Some product_id \<Rightarrow>
     (case md_quantity task of
        None \<Rightarrow> (Some (KeyError ''quantity''), s)
      | Some quantity \<Rightarrow>
     (case filter (\<lambda>(eid, eq). equipment_class eq = Crane \<and> current_load eq > 0) (equipment s) of
        [] \<Rightarrow> (None, s)
      | (crane_id, crane) # _ \<Rightarrow>
         (case map_of (tms_products s) product_id of
            None \<Rightarrow> (Some (KeyError product_id), s)
          | Some product \<Rightarrow>
              (None,
               s\<lparr>equipment := AList.update crane_id
                    (snd (unload_product crane product quantity)) (equipment s),
                 execution_log := execution_log s @
                    [LogUnload (equipment_name crane) quantity (product_name product)]\<rparr>)))))"

subsection \<open>\<open>execute_task\<close> (lines 663--697)\<close>

definition modify_task :: "string \<Rightarrow> (Task \<Rightarrow> Task) \<Rightarrow> TMSSystem \<Rightarrow> TMSSystem" where
  "modify_task task_id f s = s\<lparr>tasks := AList.map_entry task_id f (tasks s)\<rparr>"

definition dispatch :: "TMSSystem \<Rightarrow> Task \<Rightarrow> Fault option \<times> TMSSystem" where
  "dispatch s task =
     (if task_type task = SHIP_TRANSPORT then execute_ship_transport_task s task
      else if task_type task = INTERNAL_TRANSFER then execute_internal_transfer_task s task
      else if task_type task = LOADING then execute_loading_task s task
      else if task_type task = UNLOADING then execute_unloading_task s task
      else (None, s))"

text \<open>
  The release step, on the path where the effect has returned:
  \<open>if task.assigned_equipment:\<close> holds for an id that is neither \<open>None\<close> nor empty.
\<close>

definition release_equipment :: "TMSSystem \<Rightarrow> Task \<Rightarrow> Fault option \<times> TMSSystem" where
  "release_equipment s task =
     (case assigned_equipment task of
        None \<Rightarrow> (None, s)
      | Some equipment_id \<Rightarrow>
          if equipment_id = [] then (None, s)
          else (case map_of (equipment s) equipment_id of
                  None \<Rightarrow> (Some (KeyError equipment_id), s)
                | Some eq \<Rightarrow>
                    (None, s\<lparr>equipment := AList.update equipment_id
                                 (eq\<lparr>status := IDLE, current_task_id := None\<rparr>)
                                 (equipment s)\<rparr>)))"

text \<open>The body of the \<open>try\<close> block after \<open>start_execution\<close>.\<close>

definition try_body :: "bool \<Rightarrow> TMSSystem \<Rightarrow> string \<Rightarrow> Task \<Rightarrow> Fault option \<times> TMSSystem" where
  "try_body save_ok s task_id task =
     (case dispatch s task of
        (Some e, s1) \<Rightarrow> (Some e, s1)
      | (None, s1) \<Rightarrow>
         (case release_equipment (modify_task task_id complete_task s1) task of
            (Some e, s2) \<Rightarrow> (Some e, s2)
          | (None, s2) \<Rightarrow> if save_ok then (None, s2) else (Some PersistenceError, s2)))"

definition execute_task :: "bool \<Rightarrow> TMSSystem \<Rightarrow> string \<Rightarrow> bool \<times> TMSSystem" where
  "execute_task save_ok s task_id =
     (case map_of (tasks s) task_id of
        None \<Rightarrow> (False, s)
      | Some task \<Rightarrow>
         (case try_body save_ok (modify_task task_id start_execution s) task_id task of
            (None, s') \<Rightarrow> (True, s')
          | (Some e, s') \<Rightarrow> (False, modify_task task_id (fail_task e) s')))"

subsection \<open>\<open>optimize_task_schedule\<close> (lines 795--831)\<close>

definition calculate_task_equipment_distance ::
  "TMSSystem \<Rightarrow> Task \<Rightarrow> Equipment \<Rightarrow> Fault + int" where
  "calculate_task_equipment_distance s task eq =
     (case md_source_warehouse_id task of
        None \<Rightarrow> Inr 0
      | Some wid \<Rightarrow>
         (case map_of (warehouses s) wid of
            None \<Rightarrow> Inl (KeyError wid)
          | Some source_warehouse \<Rightarrow>
              Inr (distance_to (equipment_position eq) (warehouse_position source_warehouse))))"

text \<open>
  Python's \<open>min(xs, key=k)\<close> on a non-empty list: the first element with the least key,
  the keys being computed from left to right.
\<close>

fun min_scan :: "('a \<Rightarrow> Fault + int) \<Rightarrow> 'a \<Rightarrow> int \<Rightarrow> 'a list \<Rightarrow> Fault + 'a" where
  "min_scan key best best_key [] = Inr best"
| "min_scan key best best_key (x # xs) =
     (case key x of
        Inl e \<Rightarrow> Inl e
      | Inr k \<Rightarrow> if k < best_key then min_scan key x k xs else min_scan key best best_key xs)"

definition min_by_key :: "('a \<Rightarrow> Fault + int) \<Rightarrow> 'a \<Rightarrow> 'a list \<Rightarrow> Fault + 'a" where
  "min_by_key key x xs = (case key x of Inl e \<Rightarrow> Inl e | Inr k \<Rightarrow> min_scan key x k xs)"

text \<open>
  The sort key \<open>(-priority, deadline or datetime.max)\<close>: a task with no deadline
  sorts after every deadline. \<open>sorted\<close> is stable, as \<open>sort_key\<close> is.
\<close>

definition schedule_key :: "string \<times> Task \<Rightarrow> int \<times> enat" where
  "schedule_key = (\<lambda>(task_id, task).
     (- priority task, case deadline task of None \<Rightarrow> \<infinity> | Some d \<Rightarrow> enat d))"

fun schedule_loop ::
  "TMSSystem \<Rightarrow> (string \<times> Task) list \<Rightarrow> string list \<Rightarrow> (Fault + string list) \<times> TMSSystem" where
  "schedule_loop s [] optimized_schedule = (Inr optimized_schedule, s)"
| "schedule_loop s ((task_id, task) # rest) optimized_schedule =
     (case filter (\<lambda>(eid, eq). can_perform_task (equipment_class eq) (task_type task) \<and>
                               status eq = IDLE) (equipment s) of
        [] \<Rightarrow> schedule_loop s rest optimized_schedule
      | first # others \<Rightarrow>
         (case min_by_key (\<lambda>(eid, eq). calculate_task_equipment_distance s task eq)
                 first others of
            Inl e \<Rightarrow> (Inl e, s)
          | Inr (best_id, best_equipment) \<Rightarrow>
              (case assign_equipment_to_task s task_id best_id of
                 (True, s') \<Rightarrow> schedule_loop s' rest (optimized_schedule @ [task_id])
               | (False, s') \<Rightarrow> schedule_loop s' rest optimized_schedule)))"

definition optimize_task_schedule :: "TMSSystem \<Rightarrow> (Fault + string list) \<times> TMSSystem" where
  "optimize_task_schedule s =
     schedule_loop s
       (sort_key schedule_key (filter (\<lambda>(task_id, task). task_status task = PENDING) (tasks s)))
       []"

section \<open>Invariants used in the proofs\<close>

text \<open>
  What every warehouse built by the calls keeps: the dictionary has no duplicate key,
  no stored quantity is negative, and the volume invariant holds.
\<close>

definition quantities_nonneg :: "(string \<times> int) list \<Rightarrow> bool" where
  "quantities_nonneg ps \<longleftrightarrow> (\<forall>(p, q) \<in> set ps. 0 \<le> q)"

definition warehouse_ok :: "(string \<Rightarrow> rat) \<Rightarrow> Warehouse \<Rightarrow> bool" where
  "warehouse_ok vol w \<longleftrightarrow>
     distinct (map fst (products w)) \<and> quantities_nonneg (products w) \<and> volume_invariant vol w"

section \<open>Construction and example data\<close>

text \<open>
  The constructors' initial values, \<open>create_internal_transfer_task\<close> (lines 618--640;
  the generated id is a parameter, and the task is stored before the save is tried), and
  a small yard on which the theorems below are run: one product, a terminal warehouse
  holding 5 units of it, a product warehouse of capacity 4, and one truck.
\<close>

definition TMSSystem_init :: "int \<times> int \<Rightarrow> TMSSystem" where
  "TMSSystem_init gsize =
     \<lparr>grid_size = gsize, obstacles = {}, tms_products = [], warehouses = [], equipment = [],
      tasks = [], execution_log = []\<rparr>"

definition Equipment_init :: "string \<Rightarrow> Position \<Rightarrow> EquipmentClass \<Rightarrow> rat \<Rightarrow> Equipment" where
  "Equipment_init nm pos cls cap =
     \<lparr>equipment_name = nm, equipment_position = pos, status = IDLE, current_task_id = None,
      equipment_class = cls, equipment_capacity = cap, current_load = 0\<rparr>"

definition Task_init :: "TaskType \<Rightarrow> Task" where
  "Task_init ty =
     \<lparr>task_type = ty, priority = 1, task_status = PENDING, deadline = None,
      assigned_equipment = None, md_source_warehouse_id = None, md_target_warehouse_id = None,
      md_products = None, md_product_id = None, md_quantity = None, md_failure_reason = None\<rparr>"

definition create_internal_transfer_task ::
  "TMSSystem \<Rightarrow> string \<Rightarrow> string \<Rightarrow> string \<Rightarrow> (string \<times> int) list \<Rightarrow> TMSSystem" where
  "create_internal_transfer_task s task_id source_warehouse_id target_warehouse_id lines =
     s\<lparr>tasks := AList.update task_id
          ((Task_init INTERNAL_TRANSFER)\<lparr>md_source_warehouse_id := Some source_warehouse_id,
             md_target_warehouse_id := Some target_warehouse_id, md_products := Some lines\<rparr>)
          (tasks s)\<rparr>"

definition steel :: Product where
  "steel = \<lparr>product_name = ''steel'', weight = 10, volume = 1\<rparr>"

definition yard :: TMSSystem where
  "yard =
     (let s0 = TMSSystem_init (20, 20);
          s1 = snd (tms_add_product True s0 ''P001'' steel);
          w1 = snd (add_product (Warehouse_init ''terminal'' (0, 0) 100 TerminalWarehouse)
                      ''P001'' 5 (volume steel));
          s2 = snd (tms_add_warehouse True s1 ''TW001'' w1);
          s3 = snd (tms_add_warehouse True s2 ''PW001''
                      (Warehouse_init ''product'' (10, 10) 4 ProductWarehouse))
      in snd (tms_add_equipment s3 ''T001'' (Equipment_init ''truck'' (5, 5) FrameTruck 100)))"

definition glass :: Product where
  "glass = \<lparr>product_name = ''glass'', weight = 2, volume = 2\<rparr>"

definition yard_transfer :: "string \<Rightarrow> (string \<times> int) list \<Rightarrow> TMSSystem" where
  "yard_transfer target_id lines =
     snd (assign_equipment_to_task
            (create_internal_transfer_task yard ''TASK1'' ''TW001'' target_id lines)
            ''TASK1'' ''T001'')"

text \<open>
  The quantity of a product that a registered warehouse holds (\<open>Some None\<close>: the
  warehouse holds none; \<open>None\<close>: no such warehouse), and the condition under which
  a transfer line fails the source's stock check.
\<close>

definition quantity_in :: "TMSSystem \<Rightarrow> string \<Rightarrow> string \<Rightarrow> int option option" where
  "quantity_in s warehouse_id product_id =
     map_option (\<lambda>w. map_of (products w) product_id) (map_of (warehouses s) warehouse_id)"

definition exceeds_stock :: "TMSSystem \<Rightarrow> string \<Rightarrow> string \<Rightarrow> int \<Rightarrow> bool" where
  "exceeds_stock s source_id product_id quantity =
     (case map_of (warehouses s) source_id of
        None \<Rightarrow> False
      | Some w \<Rightarrow> \<not> has_stock w product_id quantity)"

text \<open>
  For the path planner: the cells of the grid, what a valid grid path is, the chain of
  predecessors that the reconstruction follows, and the invariant of the search loop.
  The invariant says that the start has score 0 and no predecessor, that scores are
  not negative, that every scored cell but the start has a predecessor, that a cell is
  a neighbour of its predecessor and has a larger score, and that every open entry is
  scored.
\<close>

definition in_bounds :: "int \<Rightarrow> int \<Rightarrow> Position \<Rightarrow> bool" where
  "in_bounds grid_width grid_height p \<longleftrightarrow>
     0 \<le> fst p \<and> fst p < grid_width \<and> 0 \<le> snd p \<and> snd p < grid_height"

definition valid_grid_path ::
  "int \<Rightarrow> int \<Rightarrow> Position set \<Rightarrow> Position \<Rightarrow> Position \<Rightarrow> Position list \<Rightarrow> bool" where
  "valid_grid_path grid_width grid_height obs start goal path \<longleftrightarrow>
     hd path = start \<and> last path = goal \<and>
     list_all (\<lambda>p. in_bounds grid_width grid_height p \<and> p \<notin> obs) path \<and>
     successively (\<lambda>a b. distance_to a b = 1) path"

fun chain :: "(Position \<rightharpoonup> Position) \<Rightarrow> Position \<Rightarrow> Position list \<Rightarrow> bool" where
  "chain cf cur [] = (cf cur = None)"
| "chain cf cur (x # xs) =
     (x = cur \<and> (case cf cur of None \<Rightarrow> False | Some prev \<Rightarrow> chain cf prev xs))"

definition astar_inv :: "int \<Rightarrow> int \<Rightarrow> Position set \<Rightarrow> Position \<Rightarrow> AStar \<Rightarrow> bool" where
  "astar_inv grid_width grid_height obs start st \<longleftrightarrow>
     g_score st start = Some 0 \<and> came_from st start = None \<and>
     (\<forall>p g. g_score st p = Some g \<longrightarrow> 0 \<le> g) \<and>
     (\<forall>p. g_score st p \<noteq> None \<longrightarrow> p = start \<or> came_from st p \<noteq> None) \<and>
     (\<forall>n c. came_from st n = Some c \<longrightarrow>
        n \<in> set (get_neighbors grid_width grid_height obs c) \<and>
        (\<exists>gn gc. g_score st n = Some gn \<and> g_score st c = Some gc \<and> gc < gn)) \<and>
     (\<forall>item \<in> set (open_set st). g_score st (snd item) \<noteq> None)"

text \<open>
  For the scheduler: the equipment a task refers to, whether a piece of equipment is
  registered and Idle, and, over a set of task ids, that no two different tasks refer to
  the same equipment and that no equipment a task refers to is Idle.
\<close>

definition assigned_to :: "TMSSystem \<Rightarrow> string \<Rightarrow> string option" where
  "assigned_to s task_id =
     (case map_of (tasks s) task_id of None \<Rightarrow> None | Some task \<Rightarrow> assigned_equipment task)"

definition idle_in :: "TMSSystem \<Rightarrow> string \<Rightarrow> bool" where
  "idle_in s equipment_id =
     (case map_of (equipment s) equipment_id of None \<Rightarrow> False | Some eq \<Rightarrow> status eq = IDLE)"

definition no_shared_equipment :: "string set \<Rightarrow> TMSSystem \<Rightarrow> bool" where
  "no_shared_equipment A s \<longleftrightarrow>
     (\<forall>t1 \<in> A. \<forall>t2 \<in> A. t1 \<noteq> t2 \<longrightarrow>
        assigned_to s t1 = None \<or> assigned_to s t1 \<noteq> assigned_to s t2)"

definition claims_held :: "string set \<Rightarrow> TMSSystem \<Rightarrow> bool" where
  "claims_held A s \<longleftrightarrow>
     (\<forall>t \<in> A. case assigned_to s t of None \<Rightarrow> True | Some e \<Rightarrow> \<not> idle_in s e)"

definition task_ids :: "TMSSystem \<Rightarrow> string set" where
  "task_ids s = set (map fst (tasks s))"

text \<open>
  For the task lifecycle: a store in which one task has been given another status, and
  the status of a task of the store.
\<close>

definition set_task_status :: "string \<Rightarrow> TaskStatus \<Rightarrow> TMSSystem \<Rightarrow> TMSSystem" where
  "set_task_status task_id st s = modify_task task_id (\<lambda>t. t\<lparr>task_status := st\<rparr>) s"

definition status_of :: "TMSSystem \<Rightarrow> string \<Rightarrow> TaskStatus option" where
  "status_of s task_id = map_option task_status (map_of (tasks s) task_id)"

text \<open>
  Two more yards: one in which the first task has been executed and a second task
  created, and one with two trucks and two pending tasks.
\<close>

definition rerun_yard :: TMSSystem where
  "rerun_yard =
     create_internal_transfer_task
       (snd (execute_task True (yard_transfer ''PW001'' [(''P001'', 1)]) ''TASK1''))
       ''TASK2'' ''TW001'' ''PW001'' [(''P001'', 1)]"

definition two_truck_yard :: TMSSystem where
  "two_truck_yard =
     (let s1 = snd (tms_add_equipment yard ''T002'' (Equipment_init ''truck2'' (1, 1) FrameTruck 100));
          s2 = create_internal_transfer_task s1 ''TASK1'' ''TW001'' ''PW001'' [(''P001'', 1)]
      in create_internal_transfer_task s2 ''TASK2'' ''TW001'' ''PW001'' [(''P001'', 2)])"


section \<open>Rounding is exact on small whole numbers\<close>

lemma bit_length_bounds:
  "0 < n \<Longrightarrow> 2 ^ (bit_length n - 1) \<le> n \<and> n < 2 ^ bit_length n"
proof (induction n rule: bit_length.induct)
  case (1 n)
  show ?case
  proof (cases "n div 2 \<le> 0")
    case True
    with "1.prems" have "n = 1" by linarith
    then show ?thesis by (simp add: bit_length.simps[of 1] bit_length.simps[of 0])
  next
    case False
    then have pos: "0 < n div 2" by simp
    from "1.IH" "1.prems" pos
    have ih: "2 ^ (bit_length (n div 2) - 1) \<le> n div 2" "n div 2 < 2 ^ bit_length (n div 2)"
      by simp_all
    have bl: "bit_length n = Suc (bit_length (n div 2))"
      using "1.prems" by (simp add: bit_length.simps[of n])
    have pos': "0 < bit_length (n div 2)"
      using pos by (simp add: bit_length.simps[of "n div 2"])
    then obtain m where m: "bit_length (n div 2) = Suc m" by (cases "bit_length (n div 2)") auto
    have lo: "(2::int) ^ bit_length (n div 2) \<le> n"
      using ih(1) m by simp
    have hi: "n < 2 * 2 ^ bit_length (n div 2)"
      using ih(2) by linarith
    from lo hi bl show ?thesis by simp
  qed
qed

lemma pow2_nonneg_exp: "0 \<le> e \<Longrightarrow> pow2 e = 2 ^ nat e"
  by (simp add: pow2_def)

lemma pow2_pos [simp]: "0 < pow2 e"
  by (simp add: pow2_def)

lemma pow2_add: "pow2 (a + b) = pow2 a * pow2 b"
proof -
  have "pow2 e = 2 powi e" for e
    by (simp add: pow2_def power_int_def inverse_eq_divide power_one_over)
  then show ?thesis by (simp add: power_int_add)
qed

lemma binade_bounds:
  assumes "1 \<le> x"
  shows "0 \<le> binade x" and "pow2 (binade x) \<le> x" and "x < pow2 (binade x + 1)"
proof -
  let ?n = "\<lfloor>x\<rfloor>"
  have n: "0 < ?n" using assms by simp
  from bit_length_bounds[OF n]
  have lo: "2 ^ (bit_length ?n - 1) \<le> ?n" and hi: "?n < 2 ^ bit_length ?n" by auto
  have bpos: "0 < bit_length ?n" using n by (simp add: bit_length.simps[of ?n])
  have b: "binade x = int (bit_length ?n - 1)" using assms bpos by (simp add: binade_def)
  show "0 \<le> binade x" using b by simp
  have "(of_int (2 ^ (bit_length ?n - 1)) :: rat) \<le> of_int ?n" using lo by (simp only: of_int_le_iff)
  also have "\<dots> \<le> x" by simp
  finally show "pow2 (binade x) \<le> x" using b by (simp add: pow2_nonneg_exp)
  have "?n + 1 \<le> 2 ^ bit_length ?n" using hi by simp
  then have "(of_int (?n + 1) :: rat) \<le> of_int (2 ^ bit_length ?n)" by (simp only: of_int_le_iff)
  moreover have "x < of_int (?n + 1)" by linarith
  ultimately have "x < of_int (2 ^ bit_length ?n)" by linarith
  moreover have "binade x + 1 = int (bit_length ?n)" using b bpos by simp
  ultimately show "x < pow2 (binade x + 1)" by (simp add: pow2_nonneg_exp)
qed

lemma round_half_even_int [simp]: "round_half_even (of_int m) = m"
  by (simp add: round_half_even_def)

lemma round_half_even_lower: "of_int m \<le> y \<Longrightarrow> m \<le> round_half_even y"
proof -
  assume "of_int m \<le> y"
  then have "m \<le> \<lfloor>y\<rfloor>" by (simp add: le_floor_iff)
  moreover have "\<lfloor>y\<rfloor> \<le> round_half_even y" by (simp add: round_half_even_def Let_def)
  ultimately show ?thesis by simp
qed

text \<open>A whole number from 0 to \<open>2\<^sup>5\<^sup>3\<close> is a double: rounding returns it.\<close>

lemma round_double_exact_int:
  assumes "0 \<le> z" "z \<le> 2 ^ 53"
  shows "round_double (of_int z) = of_int z"
proof (cases "z = 0")
  case True
  then show ?thesis by (simp add: round_double_def)
next
  case False
  let ?x = "of_int z :: rat"
  from False assms have x1: "1 \<le> ?x" by simp
  have abs: "\<bar>?x\<bar> = ?x" using assms by simp
  let ?k = "binade ?x"
  note b = binade_bounds[OF x1]
  have "pow2 ?k \<le> 2 ^ 53" using b(2) assms(2)
    by (metis of_int_le_iff of_int_numeral of_int_power order_trans)
  then have "(2::rat) ^ nat ?k \<le> 2 ^ 53" using b(1) by (simp add: pow2_nonneg_exp)
  then have "nat ?k \<le> 53" by (rule power_le_imp_le_exp[rotated]) simp
  then have k53: "?k \<le> 53" by simp
  let ?e = "max ?k (- 1022) - 52"
  have e: "?e = ?k - 52" using b(1) by simp
  have "\<exists>m. ?x / pow2 ?e = of_int m"
  proof (cases "?k \<le> 52")
    case True
    then have "pow2 (- ?e) = of_int (2 ^ nat (52 - ?k))"
      using e by (simp add: pow2_nonneg_exp)
    moreover have "?x / pow2 ?e = ?x * pow2 (- ?e)"
      using pow2_add[of ?e "- ?e"] by (simp add: pow2_def field_simps)
    ultimately have "?x / pow2 ?e = of_int (z * 2 ^ nat (52 - ?k))" by simp
    then show ?thesis by blast
  next
    case False
    with k53 have k: "?k = 53" by simp
    then have "pow2 53 \<le> ?x" using b(2) by simp
    then have "(2::rat) ^ 53 \<le> of_int z" by (simp add: pow2_def)
    then have "2 ^ 53 \<le> z" by (metis of_int_le_iff of_int_numeral of_int_power)
    with assms(2) have z: "z = 2 ^ 53" by simp
    have "?x / pow2 ?e = of_int (2 ^ 52)" using e k z by (simp add: pow2_def)
    then show ?thesis by blast
  qed
  then obtain m where m: "?x / pow2 ?e = of_int m" by blast
  have "pow2 ?e \<noteq> 0" using pow2_pos[of ?e] by (simp only: less_imp_neq not_sym)
  then have "?x = (?x / pow2 ?e) * pow2 ?e" by simp
  with m have "?x = of_int m * pow2 ?e" by simp
  with m False abs show ?thesis by (simp add: round_double_def Let_def)
qed

text \<open>Rounding does not take a number from \<open>2\<^sup>5\<^sup>3\<close> upwards below \<open>2\<^sup>5\<^sup>3\<close>.\<close>

lemma round_double_large:
  assumes "2 ^ 53 \<le> x"
  shows "2 ^ 53 \<le> round_double x"
proof -
  have x1: "1 \<le> x" using assms by (rule order_trans[rotated]) simp
  then have abs: "\<bar>x\<bar> = x" and nz: "x \<noteq> 0" by simp_all
  let ?k = "binade x"
  note b = binade_bounds[OF x1]
  have "(2::rat) ^ 53 < pow2 (?k + 1)" using assms b(3) by simp
  then have "(2::rat) ^ 53 < 2 ^ nat (?k + 1)" using b(1) by (simp add: pow2_nonneg_exp)
  then have "53 < nat (?k + 1)" by (rule power_less_imp_less_exp[rotated]) simp
  then have k: "53 \<le> ?k" by simp
  let ?e = "max ?k (- 1022) - 52"
  have e: "?e = ?k - 52" using b(1) by simp
  have split: "pow2 ?k = pow2 52 * pow2 ?e" using pow2_add[of 52 ?e] e by simp
  have "of_int (2 ^ 52) * pow2 ?e \<le> x" using b(2) split by (simp add: pow2_def)
  then have "of_int (2 ^ 52) \<le> x / pow2 ?e" by (simp add: field_simps)
  from round_half_even_lower[OF this]
  have "(of_int (2 ^ 52) :: rat) \<le> of_int (round_half_even (x / pow2 ?e))"
    by (simp only: of_int_le_iff)
  then have "of_int (2 ^ 52) * pow2 ?e \<le> of_int (round_half_even (x / pow2 ?e)) * pow2 ?e"
    by (simp only: mult_le_cancel_right_pos[OF pow2_pos])
  then have "pow2 ?k \<le> round_double x"
    using split abs nz by (simp add: round_double_def Let_def pow2_def)
  moreover have "(2::rat) ^ 53 \<le> pow2 ?k"
  proof -
    have "53 \<le> nat ?k" using k by simp
    then have "(2::rat) ^ 53 \<le> 2 ^ nat ?k" by (rule power_increasing) simp
    then show ?thesis using b(1) by (simp only: pow2_nonneg_exp)
  qed
  ultimately show ?thesis by simp
qed

lemma round_double_numeral:
  "numeral k \<le> (2::int) ^ 53 \<Longrightarrow> round_double (numeral k) = numeral k"
  using round_double_exact_int[of "numeral k"] by simp

lemma round_double_0: "round_double 0 = 0"
  by (simp add: round_double_def)

lemma round_double_1: "round_double 1 = 1"
  using round_double_exact_int[of 1] by simp

lemmas fl_simps = fl_add_def fl_sub_def fl_mul_def fl_of_int_def
  round_double_numeral round_double_0 round_double_1

section \<open>Warehouse volume invariant\<close>

subsection \<open>The stored volume under updates of the quantities\<close>

lemma stored_volume_Nil [simp]: "stored_volume vol [] = 0"
  by (simp add: stored_volume_def)

lemma stored_volume_Cons [simp]:
  "stored_volume vol ((p, q) # ps) = vol p * of_int q + stored_volume vol ps"
  by (simp add: stored_volume_def)

lemma stored_volume_update:
  "stored_volume vol (AList.update p n ps) =
     stored_volume vol ps + vol p * (of_int n - of_int (dict_get ps p 0))"
proof (induction ps)
  case Nil
  show ?case by (simp add: dict_get_def)
next
  case (Cons a ps)
  obtain k v where a: "a = (k, v)" by (cases a)
  show ?case
  proof (cases "k = p")
    case True
    then show ?thesis by (simp add: a dict_get_def algebra_simps)
  next
    case False
    with Cons show ?thesis by (simp add: a dict_get_def)
  qed
qed

lemma stored_volume_delete_absent:
  "p \<notin> fst ` set ps \<Longrightarrow> AList.delete p ps = ps"
  by (induction ps) (auto simp: AList.delete_eq)

lemma stored_volume_delete:
  "distinct (map fst ps) \<Longrightarrow> map_of ps p = Some 0 \<Longrightarrow>
     stored_volume vol (AList.delete p ps) = stored_volume vol ps"
proof (induction ps)
  case Nil
  then show ?case by simp
next
  case (Cons a ps)
  obtain k v where a: "a = (k, v)" by (cases a)
  show ?case
  proof (cases "k = p")
    case True
    with Cons.prems a have "v = 0" and "p \<notin> fst ` set ps" by auto
    then show ?thesis using True by (simp add: a AList.delete_eq stored_volume_delete_absent[unfolded AList.delete_eq])
  next
    case False
    with Cons a show ?thesis by (simp add: AList.delete_eq)
  qed
qed

lemma set_update_subset: "set (AList.update k v ps) \<subseteq> insert (k, v) (set ps)"
  by (induction ps) auto

lemma quantities_nonneg_update:
  "quantities_nonneg ps \<Longrightarrow> 0 \<le> n \<Longrightarrow> quantities_nonneg (AList.update p n ps)"
  unfolding quantities_nonneg_def using set_update_subset[of p n ps] by auto

lemma quantities_nonneg_delete:
  "quantities_nonneg ps \<Longrightarrow> quantities_nonneg (AList.delete p ps)"
  unfolding quantities_nonneg_def by (auto simp: AList.delete_eq)

lemma stored_volume_nonneg:
  "quantities_nonneg ps \<Longrightarrow> (\<forall>p. 0 \<le> vol p) \<Longrightarrow> 0 \<le> stored_volume vol ps"
  by (induction ps) (auto simp: quantities_nonneg_def)

lemma dict_get_nonneg: "quantities_nonneg ps \<Longrightarrow> 0 \<le> dict_get ps p 0"
  by (auto simp: quantities_nonneg_def dict_get_def split: option.splits dest!: map_of_SomeD)

lemma stored_volume_Ints: "(\<forall>p. vol p \<in> \<int>) \<Longrightarrow> stored_volume vol ps \<in> \<int>"
  by (induction ps) auto

lemma stored_volume_holds:
  "quantities_nonneg ps \<Longrightarrow> (\<forall>p. 0 \<le> vol p) \<Longrightarrow> map_of ps p = Some stored \<Longrightarrow>
     vol p * of_int stored \<le> stored_volume vol ps"
proof (induction ps)
  case Nil
  then show ?case by simp
next
  case (Cons a ps)
  obtain k v where a: "a = (k, v)" by (cases a)
  from Cons.prems(1) a have rest: "quantities_nonneg ps" and v: "0 \<le> v"
    by (simp_all add: quantities_nonneg_def)
  show ?case
  proof (cases "k = p")
    case True
    with Cons.prems(3) a have "v = stored" by simp
    with True a stored_volume_nonneg[OF rest Cons.prems(2)] show ?thesis by simp
  next
    case False
    with Cons.prems(3) a have "map_of ps p = Some stored" by simp
    from Cons.IH[OF rest Cons.prems(2) this]
    have "vol p * of_int stored \<le> stored_volume vol ps" .
    moreover have "0 \<le> vol k * of_int v" using Cons.prems(2) v by simp
    ultimately show ?thesis using a by simp
  qed
qed

subsection \<open>On whole numbers below \<open>2\<^sup>5\<^sup>3\<close> the two methods compute exactly\<close>

lemma fl_of_int_exact: "0 \<le> q \<Longrightarrow> q \<le> 2 ^ 53 \<Longrightarrow> fl_of_int q = of_int q"
  by (simp add: fl_of_int_def round_double_exact_int)

lemma fl_whole:
  assumes "x \<in> \<int>" "0 \<le> x"
  shows "x \<le> 2 ^ 53 \<Longrightarrow> round_double x = x" and "2 ^ 53 \<le> round_double x \<or> round_double x = x"
proof -
  from assms(1) obtain z where z: "x = of_int z" by (rule Ints_cases)
  with assms(2) have z0: "0 \<le> z" by simp
  show "round_double x = x" if "x \<le> 2 ^ 53"
  proof -
    from that z have "z \<le> 2 ^ 53" by (metis of_int_le_iff of_int_numeral of_int_power)
    with z0 z show ?thesis by (simp add: round_double_exact_int)
  qed
  then show "2 ^ 53 \<le> round_double x \<or> round_double x = x"
    using round_double_large[of x] by (cases "x \<le> 2 ^ 53") auto
qed

lemma add_product_exact:
  assumes cv: "current_volume w \<in> \<int>" "0 \<le> current_volume w"
    and cap: "capacity w < 2 ^ 53"
    and v: "v \<in> \<int>" "0 \<le> v"
    and q: "0 \<le> q" "q \<le> 2 ^ 53"
  shows "add_product w p q v =
     (if current_volume w + v * of_int q > capacity w then (False, w)
      else (True, w\<lparr>products := AList.update p (dict_get (products w) p 0 + q) (products w),
                     current_volume := current_volume w + v * of_int q\<rparr>))"
proof -
  let ?t = "v * of_int q"
  have t: "?t \<in> \<int>" "0 \<le> ?t" using v q(1) by simp_all
  have s: "current_volume w + ?t \<in> \<int>" "0 \<le> current_volume w + ?t" using cv t by simp_all
  have qq: "fl_of_int q = of_int q" using q by (rule fl_of_int_exact)
  let ?T = "fl_mul v (fl_of_int q)"
  let ?S = "fl_add (current_volume w) ?T"
  have T: "?T = round_double ?t" by (simp add: fl_mul_def qq)
  show ?thesis
  proof (cases "current_volume w + ?t \<le> 2 ^ 53")
    case True
    then have "?t \<le> 2 ^ 53" using cv(2) by simp
    then have "?T = ?t" using fl_whole(1)[OF t] T by simp
    moreover from this have "?S = current_volume w + ?t"
      using fl_whole(1)[OF s True] by (simp add: fl_add_def)
    ultimately show ?thesis by (simp add: add_product_def Let_def)
  next
    case False
    then have big: "2 ^ 53 < current_volume w + ?t" by simp
    have "2 ^ 53 \<le> ?S"
    proof (cases "?t \<le> 2 ^ 53")
      case True
      then have "?T = ?t" using fl_whole(1)[OF t] T by simp
      then have "?S = round_double (current_volume w + ?t)" by (simp add: fl_add_def)
      with round_double_large[of "current_volume w + ?t"] big show ?thesis by simp
    next
      case False
      then have "2 ^ 53 \<le> ?t" by simp
      from round_double_large[OF this] T have "2 ^ 53 \<le> ?T" by simp
      then have "2 ^ 53 \<le> current_volume w + ?T" using cv(2) by simp
      from round_double_large[OF this] show ?thesis by (simp add: fl_add_def)
    qed
    with cap have "capacity w < ?S" by simp
    moreover have "capacity w < current_volume w + ?t" using big cap by simp
    ultimately show ?thesis by (simp add: add_product_def Let_def)
  qed
qed

lemma remove_product_exact:
  assumes cv: "current_volume w \<in> \<int>" "current_volume w \<le> 2 ^ 53"
    and v: "v \<in> \<int>" "0 \<le> v"
    and q: "0 \<le> q" "q \<le> 2 ^ 53"
    and held: "v * of_int q \<le> current_volume w"
  shows "fl_sub (current_volume w) (fl_mul v (fl_of_int q)) = current_volume w - v * of_int q"
proof -
  let ?t = "v * of_int q"
  have t: "?t \<in> \<int>" "0 \<le> ?t" using v q(1) by simp_all
  have "?t \<le> 2 ^ 53" using held cv(2) by simp
  then have T: "fl_mul v (fl_of_int q) = ?t"
    using fl_whole(1)[OF t] by (simp add: fl_mul_def fl_of_int_exact[OF q])
  have d: "current_volume w - ?t \<in> \<int>" "0 \<le> current_volume w - ?t"
    using cv(1) t(1) held by simp_all
  have "current_volume w - ?t \<le> 2 ^ 53" using cv(2) t(2) by simp
  from fl_whole(1)[OF d this] T show ?thesis by (simp add: fl_sub_def)
qed

subsection \<open>The invariant is kept\<close>

lemma add_product_capacity [simp]: "capacity (snd (add_product w p q v)) = capacity w"
  by (simp add: add_product_def Let_def)

lemma remove_product_capacity [simp]: "capacity (snd (remove_product w p q v)) = capacity w"
  by (simp add: remove_product_def Let_def split: option.splits)

lemma warehouse_ok_whole:
  assumes "warehouse_ok vol w" "\<forall>p. vol p \<in> \<int> \<and> 0 \<le> vol p"
  shows "current_volume w \<in> \<int>" "0 \<le> current_volume w" "current_volume w \<le> capacity w"
  using assms stored_volume_Ints[of vol "products w"]
  by (simp_all add: warehouse_ok_def volume_invariant_def)

lemma add_product_ok:
  assumes ok: "warehouse_ok vol w" and cap: "capacity w < 2 ^ 53"
    and vol: "\<forall>p. vol p \<in> \<int> \<and> 0 \<le> vol p"
    and q: "0 \<le> q" "q \<le> 2 ^ 53"
  shows "warehouse_ok vol (snd (add_product w p q (vol p)))"
proof -
  note cv = warehouse_ok_whole[OF ok vol]
  have v: "vol p \<in> \<int>" "0 \<le> vol p" using vol by simp_all
  note eq = add_product_exact[OF cv(1,2) cap v q, of p]
  show ?thesis
  proof (cases "current_volume w + vol p * of_int q > capacity w")
    case True
    with ok eq show ?thesis by simp
  next
    case False
    have "0 \<le> vol p * of_int q" using v(2) q(1) by simp
    moreover have "\<forall>p. 0 \<le> vol p" using vol by simp
    ultimately show ?thesis using False ok q(1) eq
      by (simp add: warehouse_ok_def volume_invariant_def stored_volume_update
          AList.distinct_update quantities_nonneg_update dict_get_nonneg algebra_simps)
  qed
qed

lemma remove_product_ok:
  assumes ok: "warehouse_ok vol w" and cap: "capacity w < 2 ^ 53"
    and vol: "\<forall>p. vol p \<in> \<int> \<and> 0 \<le> vol p"
    and q: "0 \<le> q" "q \<le> 2 ^ 53"
  shows "warehouse_ok vol (snd (remove_product w p q (vol p)))"
proof (cases "map_of (products w) p")
  case None
  with ok show ?thesis by (simp add: remove_product_def)
next
  case (Some stored)
  show ?thesis
  proof (cases "stored < q")
    case True
    with Some ok show ?thesis by (simp add: remove_product_def)
  next
    case False
    note cv = warehouse_ok_whole[OF ok vol]
    have v: "vol p \<in> \<int>" "0 \<le> vol p" and vols: "\<forall>p. 0 \<le> vol p" using vol by simp_all
    have nn: "quantities_nonneg (products w)"
      and sum: "current_volume w = stored_volume vol (products w)"
      using ok by (simp_all add: warehouse_ok_def volume_invariant_def)
    have "vol p * of_int q \<le> vol p * of_int stored"
      using False v(2) by (simp add: mult_left_mono)
    also have "\<dots> \<le> current_volume w"
      using stored_volume_holds[OF nn vols Some] sum by simp
    finally have held: "vol p * of_int q \<le> current_volume w" .
    have small: "current_volume w \<le> 2 ^ 53" using cv(3) cap by simp
    note sub = remove_product_exact[OF cv(1) small v q held]
    let ?ps = "AList.update p (stored - q) (products w)"
    let ?ps' = "if stored - q = 0 then AList.delete p ?ps else ?ps"
    have d: "distinct (map fst ?ps)" and n: "quantities_nonneg ?ps"
      using ok False
      by (simp_all add: warehouse_ok_def AList.distinct_update quantities_nonneg_update)
    have sv: "stored_volume vol ?ps = current_volume w - vol p * of_int q"
      using Some sum by (simp add: stored_volume_update dict_get_def algebra_simps)
    have sv': "stored_volume vol ?ps' = stored_volume vol ?ps"
      using d by (auto simp: stored_volume_delete AList.update_conv')
    have d': "distinct (map fst ?ps')" and n': "quantities_nonneg ?ps'"
      using d n by (cases "stored - q = 0"; simp add: AList.distinct_delete quantities_nonneg_delete)+
    have nn': "0 \<le> stored_volume vol ?ps'" using n' vols by (rule stored_volume_nonneg)
    have "0 \<le> vol p * of_int q" using v(2) q(1) by simp
    then have le: "current_volume w - vol p * of_int q \<le> capacity w"
      using cv(3) by simp
    have eq: "snd (remove_product w p q (vol p)) =
        w\<lparr>products := ?ps', current_volume := current_volume w - vol p * of_int q\<rparr>"
      using Some False sub by (simp add: remove_product_def Let_def)
    show ?thesis
      unfolding eq warehouse_ok_def volume_invariant_def
      using d' n' nn' le sv sv' by simp
  qed
qed

lemma apply_call_ok:
  assumes "warehouse_ok vol w" "capacity w < 2 ^ 53" "\<forall>p. vol p \<in> \<int> \<and> 0 \<le> vol p"
    "0 \<le> call_quantity c" "call_quantity c \<le> 2 ^ 53"
  shows "warehouse_ok vol (apply_call vol w c) \<and> capacity (apply_call vol w c) = capacity w"
  using assms by (cases c) (simp_all add: add_product_ok remove_product_ok)

lemma apply_calls_ok:
  "warehouse_ok vol w \<Longrightarrow> capacity w < 2 ^ 53 \<Longrightarrow> \<forall>p. vol p \<in> \<int> \<and> 0 \<le> vol p \<Longrightarrow>
     \<forall>c \<in> set cs. 0 \<le> call_quantity c \<and> call_quantity c \<le> 2 ^ 53 \<Longrightarrow>
     warehouse_ok vol (apply_calls vol w cs) \<and> capacity (apply_calls vol w cs) = capacity w"
  unfolding apply_calls_def
proof (induction cs arbitrary: w)
  case Nil
  then show ?case by simp
next
  case (Cons c cs)
  from Cons.prems(4) have c: "0 \<le> call_quantity c" "call_quantity c \<le> 2 ^ 53" by simp_all
  from apply_call_ok[OF Cons.prems(1,2,3) c]
  have step: "warehouse_ok vol (apply_call vol w c)" "capacity (apply_call vol w c) = capacity w"
    by simp_all
  from Cons.prems(4) have rest: "\<forall>c \<in> set cs. 0 \<le> call_quantity c \<and> call_quantity c \<le> 2 ^ 53"
    by simp
  from Cons.IH[OF step(1) _ Cons.prems(3) rest] step(2) Cons.prems(2) show ?case by simp
qed

lemma Warehouse_init_ok: "0 \<le> cap \<Longrightarrow> warehouse_ok vol (Warehouse_init nm pos cap cls)"
  by (simp add: Warehouse_init_def warehouse_ok_def volume_invariant_def quantities_nonneg_def)




section \<open>Internal transfers\<close>

lemma remove_product_other:
  "p' \<noteq> p \<Longrightarrow> map_of (products (snd (remove_product w p' q v))) p = map_of (products w) p"
  by (simp add: remove_product_def Let_def AList.update_conv' AList.delete_conv' split: option.splits)

lemma add_product_other:
  "p' \<noteq> p \<Longrightarrow> map_of (products (snd (add_product w p' q v))) p = map_of (products w) p"
  by (simp add: add_product_def Let_def AList.update_conv')

lemma transfer_line_other:
  "p' \<noteq> p \<Longrightarrow>
     quantity_in (snd (transfer_line s src tgt p' q')) wid p = quantity_in s wid p"
  by (auto simp: transfer_line_def quantity_in_def Let_def AList.update_conv'
      remove_product_other add_product_other split: option.splits)

lemma transfer_line_skip:
  "exceeds_stock s src p q \<Longrightarrow> transfer_line s src tgt p q = (None, s)"
  by (auto simp: transfer_line_def exceeds_stock_def split: option.splits)

lemma exceeds_stock_cong:
  "quantity_in s' src p = quantity_in s src p \<Longrightarrow>
     exceeds_stock s' src p q = exceeds_stock s src p q"
  by (cases "map_of (warehouses s) src"; cases "map_of (warehouses s') src")
     (auto simp: quantity_in_def exceeds_stock_def has_stock_def)

lemma transfer_lines_quantity:
  "\<forall>q. (p, q) \<in> set lines \<longrightarrow> exceeds_stock s src p q \<Longrightarrow>
     quantity_in (snd (transfer_lines s src tgt lines)) wid p = quantity_in s wid p"
proof (induction lines arbitrary: s)
  case Nil
  show ?case by simp
next
  case (Cons line lines)
  obtain p' q' where line: "line = (p', q')" by (cases line)
  obtain r s1 where tl: "transfer_line s src tgt p' q' = (r, s1)" by force
  have q1: "quantity_in s1 w p = quantity_in s w p" for w
  proof (cases "p' = p")
    case True
    with Cons.prems line have "exceeds_stock s src p q'" by simp
    with tl True show ?thesis by (simp add: transfer_line_skip)
  next
    case False
    from transfer_line_other[OF this, of s src tgt q' w] tl show ?thesis by simp
  qed
  show ?case
  proof (cases r)
    case (Some e)
    with tl line q1 show ?thesis by simp
  next
    case None
    have "\<forall>q. (p, q) \<in> set lines \<longrightarrow> exceeds_stock s1 src p q"
      using Cons.prems exceeds_stock_cong[OF q1] by simp
    from Cons.IH[OF this] tl line None q1 show ?thesis by simp
  qed
qed

subsection \<open>What the effects leave alone\<close>

lemma ship_line_tasks [simp]: "tasks (snd (ship_line s p q)) = tasks s"
  by (simp add: ship_line_def split: option.splits prod.splits)

lemma ship_lines_tasks [simp]: "tasks (snd (ship_lines s lines)) = tasks s"
proof (induction lines arbitrary: s)
  case Nil
  show ?case by simp
next
  case (Cons line lines)
  obtain p q where line: "line = (p, q)" by (cases line)
  obtain r s1 where sl: "ship_line s p q = (r, s1)" by force
  have "tasks s1 = tasks s" using ship_line_tasks[of s p q] sl by simp
  with Cons.IH[of s1] sl line show ?case by (cases r) simp_all
qed

lemma transfer_line_frame [simp]:
  "tasks (snd (transfer_line s src tgt p q)) = tasks s"
  "equipment (snd (transfer_line s src tgt p q)) = equipment s"
  "tms_products (snd (transfer_line s src tgt p q)) = tms_products s"
  by (simp_all add: transfer_line_def Let_def split: option.splits)

lemma transfer_line_registered:
  "map_of (warehouses s) w \<noteq> None \<Longrightarrow>
     map_of (warehouses (snd (transfer_line s src tgt p q))) w \<noteq> None"
  by (auto simp: transfer_line_def Let_def AList.update_conv' split: option.splits)

lemma transfer_lines_frame [simp]:
  "tasks (snd (transfer_lines s src tgt lines)) = tasks s \<and>
   equipment (snd (transfer_lines s src tgt lines)) = equipment s \<and>
   tms_products (snd (transfer_lines s src tgt lines)) = tms_products s"
proof (induction lines arbitrary: s)
  case Nil
  show ?case by simp
next
  case (Cons line lines)
  obtain p q where line: "line = (p, q)" by (cases line)
  obtain r s1 where tl: "transfer_line s src tgt p q = (r, s1)" by force
  have "tasks s1 = tasks s" "equipment s1 = equipment s" "tms_products s1 = tms_products s"
    using transfer_line_frame[of s src tgt p q] tl by simp_all
  with Cons.IH[of s1] tl line show ?case by (cases r) simp_all
qed

lemma load_unload_frame [simp]:
  "tasks (snd (execute_loading_task s t)) = tasks s"
  "tasks (snd (execute_unloading_task s t)) = tasks s"
  by (simp_all add: execute_loading_task_def execute_unloading_task_def
      split: option.splits list.splits prod.splits)

lemma dispatch_tasks [simp]: "tasks (snd (dispatch s t)) = tasks s"
  by (simp add: dispatch_def execute_ship_transport_task_def execute_internal_transfer_task_def
      split: option.splits)

lemma release_equipment_tasks [simp]: "tasks (snd (release_equipment s t)) = tasks s"
  by (simp add: release_equipment_def split: option.splits)

lemma map_of_map_entry_option:
  "map_of (AList.map_entry k f al) = (map_of al)(k := map_option f (map_of al k))"
  by (auto simp: AList.map_of_map_entry split: option.splits)

lemma map_of_modify_task:
  "map_of (tasks (modify_task k f s)) =
     (map_of (tasks s))(k := map_option f (map_of (tasks s) k))"
  by (simp add: modify_task_def map_of_map_entry_option)

lemma try_body_tasks:
  assumes tb: "try_body save_ok s k t = (r, s')"
  shows "\<exists>g. map_of (tasks s') = (map_of (tasks s))(k := map_option g (map_of (tasks s) k)) \<and>
             (r = None \<longrightarrow> g = complete_task)"
proof -
  obtain d s1 where d: "dispatch s t = (d, s1)" by force
  have t1: "tasks s1 = tasks s" using dispatch_tasks[of s t] d by simp
  show ?thesis
  proof (cases d)
    case (Some e)
    with tb d t1 have "r = Some e" "tasks s' = tasks s" by (simp_all add: try_body_def)
    then have "map_of (tasks s') = (map_of (tasks s))(k := map_option id (map_of (tasks s) k))"
      by (simp add: option.map_id)
    with \<open>r = Some e\<close> show ?thesis by blast
  next
    case None
    obtain r2 s2 where rel: "release_equipment (modify_task k complete_task s1) t = (r2, s2)"
      by force
    have t2: "tasks s2 = tasks (modify_task k complete_task s1)"
      using release_equipment_tasks[of "modify_task k complete_task s1" t] rel by simp
    have "tasks s' = tasks s2"
      using tb d None rel by (cases r2) (auto simp: try_body_def split: if_splits)
    with t2 t1 have "map_of (tasks s') =
        (map_of (tasks s))(k := map_option complete_task (map_of (tasks s) k))"
      by (simp add: modify_task_def map_of_map_entry_option)
    then show ?thesis by blast
  qed
qed

lemma execute_task_terminal:
  assumes "map_of (tasks s) task_id = Some task"
  shows "\<exists>t'. map_of (tasks (snd (execute_task save_ok s task_id))) task_id = Some t' \<and>
              task_status t' = (if fst (execute_task save_ok s task_id) then COMPLETED else FAILED)"
proof -
  let ?s0 = "modify_task task_id start_execution s"
  obtain r s' where tb: "try_body save_ok ?s0 task_id task = (r, s')" by force
  have m0: "map_of (tasks ?s0) task_id = Some (start_execution task)"
    using assms by (simp add: map_of_modify_task)
  from try_body_tasks[OF tb] m0 obtain t1 where t1: "map_of (tasks s') task_id = Some t1"
    and c: "r = None \<Longrightarrow> task_status t1 = COMPLETED"
    by (auto simp: complete_task_def)
  show ?thesis
  proof (cases r)
    case None
    with assms tb t1 c show ?thesis by (simp add: execute_task_def)
  next
    case (Some e)
    with assms tb t1 show ?thesis
      by (simp add: execute_task_def map_of_modify_task fail_task_def)
  qed
qed

lemma modify_task_frame [simp]:
  "warehouses (modify_task k f s) = warehouses s"
  "equipment (modify_task k f s) = equipment s"
  "tms_products (modify_task k f s) = tms_products s"
  by (simp_all add: modify_task_def)

lemma quantity_in_modify_task [simp]: "quantity_in (modify_task k f s) = quantity_in s"
  by (simp add: quantity_in_def fun_eq_iff)

lemma release_equipment_warehouses [simp]:
  "warehouses (snd (release_equipment s t)) = warehouses s"
  by (simp add: release_equipment_def split: option.splits)

lemma transfer_line_no_fault:
  "map_of (warehouses s) src \<noteq> None \<Longrightarrow> map_of (warehouses s) tgt \<noteq> None \<Longrightarrow>
     map_of (tms_products s) p \<noteq> None \<Longrightarrow> fst (transfer_line s src tgt p q) = None"
  by (auto simp: transfer_line_def Let_def AList.update_conv' split: option.splits)

lemma transfer_lines_no_fault:
  "map_of (warehouses s) src \<noteq> None \<Longrightarrow> map_of (warehouses s) tgt \<noteq> None \<Longrightarrow>
     \<forall>(p, q) \<in> set lines. map_of (tms_products s) p \<noteq> None \<Longrightarrow>
     fst (transfer_lines s src tgt lines) = None"
proof (induction lines arbitrary: s)
  case Nil
  show ?case by simp
next
  case (Cons line lines)
  obtain p q where line: "line = (p, q)" by (cases line)
  obtain r s1 where tl: "transfer_line s src tgt p q = (r, s1)" by force
  have r: "r = None"
    using transfer_line_no_fault[OF Cons.prems(1,2), of p q] Cons.prems(3) line tl by simp
  have s1: "map_of (warehouses s1) src \<noteq> None" "map_of (warehouses s1) tgt \<noteq> None"
    using transfer_line_registered[OF Cons.prems(1), of src tgt p q]
      transfer_line_registered[OF Cons.prems(2), of src tgt p q] tl by simp_all
  have "tms_products s1 = tms_products s"
    using transfer_line_frame(3)[of s src tgt p q] tl by simp
  with Cons.prems(3) have "\<forall>(p, q) \<in> set lines. map_of (tms_products s1) p \<noteq> None" by simp
  from Cons.IH[OF s1 this] tl line r show ?case by simp
qed


section \<open>The claims on the example yard\<close>

lemmas yard_defs = yard_transfer_def yard_def create_internal_transfer_task_def Task_init_def
  TMSSystem_init_def Equipment_init_def Warehouse_init_def steel_def glass_def
  tms_add_product_def tms_add_warehouse_def tms_add_equipment_def assign_equipment_to_task_def
  add_product_def remove_product_def dict_get_def has_stock_def Let_def fl_simps

lemmas exec_defs = execute_task_def try_body_def dispatch_def execute_internal_transfer_task_def
  transfer_line_def release_equipment_def modify_task_def start_execution_def complete_task_def
  fail_task_def quantity_in_def



text \<open>
  Claim C1 on the code. The task is assigned the truck and names an unregistered target
  warehouse. \<open>execute_task\<close> catches the KeyError and fails the task, and the truck is
  still Busy and still refers to the task: the release step is on the success path only.
\<close>

theorem failed_task_keeps_equipment_busy:
  "(let s = yard_transfer ''W404'' [(''P001'', 1)];
        r = execute_task True s ''TASK1''
    in map_option assigned_equipment (map_of (tasks s) ''TASK1'') = Some (Some ''T001'') \<and>
       \<not> fst r \<and>
       map_option task_status (map_of (tasks (snd r)) ''TASK1'') = Some FAILED \<and>
       map_option md_failure_reason (map_of (tasks (snd r)) ''TASK1'') = Some (Some (KeyError ''W404'')) \<and>
       map_option status (map_of (equipment (snd r)) ''T001'') = Some BUSY \<and>
       map_option current_task_id (map_of (equipment (snd r)) ''T001'') = Some (Some ''TASK1''))"
  by code_simp

text \<open>
  Claim C3 on the code. The line moves 5 units to a target of capacity 4. The source
  check passes and 5 units leave the source; \<open>add_product\<close> on the target returns
  \<open>False\<close>, which the caller ignores. The units are in neither warehouse, and the log
  records a transfer.
\<close>

theorem transfer_over_capacity_half_applied:
  "(let s = yard_transfer ''PW001'' [(''P001'', 5)];
        r = execute_task True s ''TASK1''
    in map_option products (map_of (warehouses s) ''TW001'') = Some [(''P001'', 5)] \<and>
       map_option current_volume (map_of (warehouses s) ''TW001'') = Some 5 \<and>
       map_option capacity (map_of (warehouses s) ''PW001'') = Some 4 \<and>
       fst r \<and>
       map_option products (map_of (warehouses (snd r)) ''TW001'') = Some [] \<and>
       map_option current_volume (map_of (warehouses (snd r)) ''TW001'') = Some 0 \<and>
       map_option products (map_of (warehouses (snd r)) ''PW001'') = Some [] \<and>
       execution_log (snd r) = [LogTransfer ''terminal'' 5 ''steel'' ''product''])"
  by code_simp

text \<open>
  The claim as written fails: \<open>execute_task\<close> on a Completed task moves it to
  InProgress again (its first step) and applies the transfer a second time.
\<close>

theorem execute_task_rerun_counterexample:
  "(let s = yard_transfer ''PW001'' [(''P001'', 1)];
        s1 = snd (execute_task True s ''TASK1'');
        s2 = snd (execute_task True s1 ''TASK1'')
    in map_option task_status (map_of (tasks s1) ''TASK1'') = Some COMPLETED \<and>
       map_option task_status (map_of (tasks (modify_task ''TASK1'' start_execution s1)) ''TASK1'')
         = Some IN_PROGRESS \<and>
       quantity_in s1 ''TW001'' ''P001'' = Some (Some 4) \<and>
       quantity_in s1 ''PW001'' ''P001'' = Some (Some 1) \<and>
       fst (execute_task True s1 ''TASK1'') \<and>
       quantity_in s2 ''TW001'' ''P001'' = Some (Some 3) \<and>
       quantity_in s2 ''PW001'' ''P001'' = Some (Some 2))"
  by code_simp

text \<open>
  Claim C5 on the code: Scenario A. The two neighbours of \<open>(0, 0)\<close> have the same
  f-score 8; pushing the second one compares the two positions, which raises TypeError.
  No path is returned.
\<close>

theorem a_star_path_scenario_A_raises:
  "a_star_path 5 5 {} (0, 0) (4, 4) = Some (Inl TypeError)"
  by code_simp

text \<open>
  Claim C6 on the code. Open-set entries are the tuples \<open>(f, Position)\<close>, with no
  sequence number: on a tie of f-scores the positions themselves are compared, and the
  query raises.
\<close>

theorem a_star_tie_compares_positions:
  "item_lt (2, (1, 0)) (2, (0, 1)) = Inl TypeError \<and>
   heappush [(2, (0, 1))] (2, (1, 0)) = Inl TypeError \<and>
   a_star_path 2 2 {} (0, 0) (1, 1) = Some (Inl TypeError)"
  by code_simp

text \<open>
  Claim C9, as amended. Registering a product, a warehouse or a piece of equipment under
  an id that is already present is accepted: the new entity replaces the stored one and
  the call returns \<open>True\<close> (for products and warehouses, when the save succeeds); for
  equipment the starting cell is also marked as an obstacle.
\<close>

theorem duplicate_registration_overwrites:
  "(map_of (tms_products s) product_id \<noteq> None \<longrightarrow>
      tms_add_product True s product_id product =
        (True, s\<lparr>tms_products := AList.update product_id product (tms_products s)\<rparr>) \<and>
      map_of (tms_products (snd (tms_add_product True s product_id product))) product_id
        = Some product) \<and>
   (map_of (warehouses s) warehouse_id \<noteq> None \<longrightarrow>
      tms_add_warehouse True s warehouse_id warehouse =
        (True, s\<lparr>warehouses := AList.update warehouse_id warehouse (warehouses s)\<rparr>) \<and>
      map_of (warehouses (snd (tms_add_warehouse True s warehouse_id warehouse))) warehouse_id
        = Some warehouse) \<and>
   (map_of (equipment s) equipment_id \<noteq> None \<longrightarrow>
      fst (tms_add_equipment s equipment_id eq) \<and>
      map_of (equipment (snd (tms_add_equipment s equipment_id eq))) equipment_id = Some eq \<and>
      equipment_position eq \<in> obstacles (snd (tms_add_equipment s equipment_id eq)))"
  by (simp add: tms_add_product_def tms_add_warehouse_def tms_add_equipment_def
      AList.update_conv')

theorem duplicate_registration_overwrites_witness:
  "map_of (tms_products yard) ''P001'' = Some steel \<and>
   fst (tms_add_product True yard ''P001'' glass) \<and>
   map_of (tms_products (snd (tms_add_product True yard ''P001'' glass))) ''P001'' = Some glass \<and>
   map_of (warehouses yard) ''PW001'' \<noteq> None \<and>
   map_of (warehouses (snd (tms_add_warehouse True yard ''PW001''
       (Warehouse_init ''other'' (3, 3) 7 TerminalWarehouse)))) ''PW001''
     = Some (Warehouse_init ''other'' (3, 3) 7 TerminalWarehouse) \<and>
   map_of (equipment yard) ''T001'' \<noteq> None \<and>
   map_of (equipment (snd (tms_add_equipment yard ''T001''
       (Equipment_init ''crane'' (7, 7) Crane 50)))) ''T001''
     = Some (Equipment_init ''crane'' (7, 7) Crane 50) \<and>
   (7, 7) \<in> obstacles (snd (tms_add_equipment yard ''T001''
       (Equipment_init ''crane'' (7, 7) Crane 50)))"
  using duplicate_registration_overwrites[of yard "''P001''" glass "''PW001''"
      "Warehouse_init ''other'' (3, 3) 7 TerminalWarehouse" "''T001''"
      "Equipment_init ''crane'' (7, 7) Crane 50"]
  by (simp add: yard_defs)

text \<open>
  The claim as written fails: registering another product under the id of a registered
  one returns \<open>True\<close> and changes the registry.
\<close>

theorem duplicate_registration_counterexample:
  "map_of (tms_products yard) ''P001'' = Some steel \<and>
   fst (tms_add_product True yard ''P001'' glass) \<and>
   snd (tms_add_product True yard ''P001'' glass) \<noteq> yard \<and>
   map_of (tms_products (snd (tms_add_product True yard ''P001'' glass))) ''P001'' \<noteq> Some steel"
  by (simp add: yard_defs)

section \<open>Path planner: returned paths are valid\<close>

subsection \<open>The heap operations keep the entries\<close>


lemma siftdown_set:
  "siftdown heap startpos pos newitem = Inr heap' \<Longrightarrow> pos < length heap \<Longrightarrow>
     set heap' \<subseteq> insert newitem (set heap)"
proof (induction heap startpos pos newitem rule: siftdown.induct)
  case (1 heap startpos pos newitem)
  show ?case
  proof (cases "startpos < pos")
    case False
    with "1.prems" have "heap' = heap[pos := newitem]"
      by (simp add: siftdown.simps[of heap startpos pos newitem])
    then show ?thesis using set_update_subset_insert by fast
  next
    case True
    let ?pp = "(pos - 1) div 2"
    let ?parent = "heap ! ?pp"
    from True "1.prems"(2) have pp: "?pp < length heap" "?pp < pos" by auto
    then have par: "?parent \<in> set heap" by simp
    note unf = siftdown.simps[of heap startpos pos newitem]
    from True "1.prems"(1) obtain lt where lt: "item_lt newitem ?parent = Inr lt"
      by (cases "item_lt newitem ?parent") (simp_all add: unf Let_def)
    show ?thesis
    proof (cases lt)
      case False
      with True lt "1.prems" have "heap' = heap[pos := newitem]" by (simp add: unf Let_def)
      then show ?thesis using set_update_subset_insert by fast
    next
      case True': True
      from True True' lt "1.prems"(1)
      have rec: "siftdown (heap[pos := ?parent]) startpos ?pp newitem = Inr heap'"
        by (simp add: unf Let_def)
      have "set heap' \<subseteq> insert newitem (set (heap[pos := ?parent]))"
        using "1.IH"[OF True refl refl lt True' rec] pp by simp
      moreover have "set (heap[pos := ?parent]) \<subseteq> set heap"
        using set_update_subset_insert[of heap pos ?parent] par by auto
      ultimately show ?thesis by auto
    qed
  qed
qed

lemma siftup_loop_set:
  "siftup_loop heap pos = Inr (heap', pos') \<Longrightarrow> pos < length heap \<Longrightarrow>
     set heap' \<subseteq> set heap \<and> pos' < length heap'"
proof (induction heap pos rule: siftup_loop.induct)
  case (1 heap pos)
  let ?c = "2 * pos + 1"
  show ?case
  proof (cases "?c < length heap")
    case False
    with "1.prems" show ?thesis by (simp add: siftup_loop.simps[of heap pos] Let_def)
  next
    case True
    define pick where "pick =
      (if ?c + 1 < length heap
       then (case item_lt (heap ! ?c) (heap ! (?c + 1)) of Inl e \<Rightarrow> Inl e
             | Inr lt \<Rightarrow> Inr (if \<not> lt then ?c + 1 else ?c))
       else (Inr ?c :: Fault + nat))"
    have unf: "siftup_loop heap pos =
        (case pick of Inl e \<Rightarrow> Inl e | Inr c \<Rightarrow> siftup_loop (heap[pos := heap ! c]) c)"
      unfolding pick_def using True by (subst siftup_loop.simps) (simp only: Let_def if_True)
    from "1.prems"(1) obtain c where c: "pick = Inr c"
      and rec: "siftup_loop (heap[pos := heap ! c]) c = Inr (heap', pos')"
      unfolding unf by (cases pick) simp_all
    have cl: "c < length heap"
      using c True unfolding pick_def by (auto split: if_splits sum.splits)
    have "set heap' \<subseteq> set (heap[pos := heap ! c]) \<and> pos' < length heap'"
      using "1.IH"[OF refl refl True refl c[unfolded pick_def] rec] cl by simp
    moreover have "set (heap[pos := heap ! c]) \<subseteq> set heap"
      using set_update_subset_insert[of heap pos "heap ! c"] cl by auto
    ultimately show ?thesis by auto
  qed
qed

lemma siftup_set:
  assumes "siftup heap pos = Inr heap'" "pos < length heap"
  shows "set heap' \<subseteq> set heap"
proof -
  from assms(1) obtain h1 p1 where sl: "siftup_loop heap pos = Inr (h1, p1)"
    and sd: "siftdown (h1[p1 := heap ! pos]) pos p1 (heap ! pos) = Inr heap'"
    by (auto simp: siftup_def Let_def split: sum.splits)
  from siftup_loop_set[OF sl assms(2)] have h1: "set h1 \<subseteq> set heap" "p1 < length h1" by auto
  from siftdown_set[OF sd] h1(2)
  have "set heap' \<subseteq> insert (heap ! pos) (set (h1[p1 := heap ! pos]))" by simp
  moreover have "set (h1[p1 := heap ! pos]) \<subseteq> insert (heap ! pos) (set h1)"
    by (rule set_update_subset_insert)
  moreover have "heap ! pos \<in> set heap" using assms(2) by simp
  ultimately show ?thesis using h1(1) by blast
qed

lemma heappush_set:
  "heappush heap item = Inr heap' \<Longrightarrow> set heap' \<subseteq> insert item (set heap)"
  using siftdown_set[of "heap @ [item]" 0 "length heap" item heap'] by (auto simp: heappush_def)

lemma heappop_set:
  assumes "heappop heap = Inr (item, heap')"
  shows "item \<in> set heap \<and> set heap' \<subseteq> set heap"
proof (cases "butlast heap = []")
  case True
  with assms have "heap \<noteq> []" "item = last heap" "heap' = butlast heap"
    by (auto simp: heappop_def Let_def split: if_splits)
  then show ?thesis using True by simp
next
  case False
  then have ne: "heap \<noteq> []" by auto
  from assms False ne have item: "item = hd (butlast heap)"
    and su: "siftup ((butlast heap)[0 := last heap]) 0 = Inr heap'"
    by (auto simp: heappop_def Let_def split: sum.splits)
  have "0 < length ((butlast heap)[0 := last heap])"
    using False by (simp del: length_butlast)
  from siftup_set[OF su this]
  have "set heap' \<subseteq> set ((butlast heap)[0 := last heap])" .
  also have "\<dots> \<subseteq> insert (last heap) (set (butlast heap))"
    by (rule set_update_subset_insert)
  also have "\<dots> \<subseteq> set heap"
    using ne by (auto dest: in_set_butlastD)
  finally have "set heap' \<subseteq> set heap" .
  moreover have "item \<in> set heap"
    using item hd_in_set[OF False] by (auto dest: in_set_butlastD)
  ultimately show ?thesis by simp
qed

lemma get_neighbors_props:
  "n \<in> set (get_neighbors W H obs c) \<Longrightarrow>
     in_bounds W H n \<and> n \<notin> obs \<and> distance_to n c = 1"
proof -
  assume "n \<in> set (get_neighbors W H obs c)"
  then have ok: "in_bounds W H n \<and> n \<notin> obs"
    and mem: "n \<in> (\<lambda>(dx, dy). (fst c + dx, snd c + dy)) ` set directions"
    by (auto simp: get_neighbors_def in_bounds_def)
  from mem have "distance_to n c = 1"
    by (auto simp: directions_def distance_to_def)
  with ok show ?thesis by simp
qed

lemma astar_invD:
  assumes "astar_inv W H obs start st"
  shows "g_score st start = Some 0" and "came_from st start = None"
    and "g_score st p = Some g \<Longrightarrow> 0 \<le> g"
    and "g_score st p \<noteq> None \<Longrightarrow> p = start \<or> came_from st p \<noteq> None"
    and "came_from st n = Some c \<Longrightarrow> n \<in> set (get_neighbors W H obs c)"
    and "came_from st n = Some c \<Longrightarrow>
           \<exists>gn gc. g_score st n = Some gn \<and> g_score st c = Some gc \<and> gc < gn"
    and "item \<in> set (open_set st) \<Longrightarrow> g_score st (snd item) \<noteq> None"
  using assms unfolding astar_inv_def by blast+

lemma reconstruct_chain:
  assumes "reconstruct cf cur acc = Some path"
  shows "\<exists>xs. path = acc @ xs \<and> chain cf cur xs"
proof (rule reconstruct.raw_induct[OF _ assms])
  fix rc :: "(Position \<rightharpoonup> Position) \<Rightarrow> Position \<Rightarrow> Position list \<Rightarrow> Position list option"
  fix cf cur acc path
  assume IH: "\<And>cf cur acc path. rc cf cur acc = Some path \<Longrightarrow>
                \<exists>xs. path = acc @ xs \<and> chain cf cur xs"
    and body: "(case cf cur of None \<Rightarrow> Some acc
                | Some prev \<Rightarrow> rc cf prev (acc @ [cur])) = Some path"
  show "\<exists>xs. path = acc @ xs \<and> chain cf cur xs"
  proof (cases "cf cur")
    case None
    with body show ?thesis by simp
  next
    case (Some prev)
    with body have "rc cf prev (acc @ [cur]) = Some path" by simp
    from IH[OF this] obtain xs where "path = (acc @ [cur]) @ xs" "chain cf prev xs" by blast
    with Some have "path = acc @ (cur # xs)" "chain cf cur (cur # xs)" by simp_all
    then show ?thesis by blast
  qed
qed

lemma chain_valid:
  assumes inv: "astar_inv W H obs start st"
  shows "chain (came_from st) cur xs \<Longrightarrow> g_score st cur \<noteq> None \<Longrightarrow>
     list_all (\<lambda>p. in_bounds W H p \<and> p \<notin> obs) xs \<and>
     successively (\<lambda>a b. distance_to b a = 1) (xs @ [start]) \<and>
     (xs = [] \<longrightarrow> cur = start) \<and> (xs \<noteq> [] \<longrightarrow> hd xs = cur)"
proof (induction xs arbitrary: cur)
  case Nil
  then have "came_from st cur = None" by simp
  with astar_invD(4)[OF inv Nil.prems(2)] have "cur = start" by simp
  then show ?case by simp
next
  case (Cons x xs)
  from Cons.prems(1) obtain prev where x: "x = cur" and cf: "came_from st cur = Some prev"
    and ch: "chain (came_from st) prev xs"
    by (auto split: option.splits)
  from astar_invD(5,6)[OF inv cf] have nb: "cur \<in> set (get_neighbors W H obs prev)"
    and gp: "g_score st prev \<noteq> None"
    by auto
  from get_neighbors_props[OF nb]
  have cur: "in_bounds W H cur" "cur \<notin> obs" "distance_to cur prev = 1" by auto
  from Cons.IH[OF ch gp]
  have ih: "list_all (\<lambda>p. in_bounds W H p \<and> p \<notin> obs) xs"
    "successively (\<lambda>a b. distance_to b a = 1) (xs @ [start])"
    "xs = [] \<longrightarrow> prev = start" "xs \<noteq> [] \<longrightarrow> hd xs = prev" by auto
  have "successively (\<lambda>a b. distance_to b a = 1) (cur # xs @ [start])"
  proof (cases xs)
    case Nil
    with ih(3) cur(3) show ?thesis by (simp add: distance_to_def abs_minus_commute)
  next
    case (Cons y ys)
    with ih(4) have "y = prev" by simp
    with Cons ih(2) cur(3) show ?thesis
      by (simp add: successively_Cons distance_to_def abs_minus_commute)
  qed
  with x cur ih(1) show ?case by simp
qed

lemma relax_step_inv:
  assumes inv: "astar_inv W H obs start st"
    and nb: "n \<in> set (get_neighbors W H obs current)"
    and gc: "g_score st current = Some gc"
    and better: "case g_score st n of None \<Rightarrow> True | Some g \<Rightarrow> gc + 1 < g"
    and heap: "set heap \<subseteq> insert (f, n) (set (open_set st))"
  shows "astar_inv W H obs start
           (st\<lparr>open_set := heap, came_from := (came_from st)(n \<mapsto> current),
               g_score := (g_score st)(n \<mapsto> gc + 1), f_score := fs\<rparr>)"
proof -
  have gc0: "0 \<le> gc" using astar_invD(3)[OF inv gc] .
  have ns: "n \<noteq> start"
    using better astar_invD(1)[OF inv] gc0 by auto
  have nc: "n \<noteq> current"
    using better gc by auto
  have c1: "((g_score st)(n \<mapsto> gc + 1)) start = Some 0"
    using ns astar_invD(1)[OF inv] by simp
  have c2: "((came_from st)(n \<mapsto> current)) start = None"
    using ns astar_invD(2)[OF inv] by simp
  have c3: "0 \<le> g" if "((g_score st)(n \<mapsto> gc + 1)) p = Some g" for p g
    using that gc0 astar_invD(3)[OF inv, of p g] by (cases "p = n") auto
  have c4: "p = start \<or> ((came_from st)(n \<mapsto> current)) p \<noteq> None"
    if "((g_score st)(n \<mapsto> gc + 1)) p \<noteq> None" for p
    using that astar_invD(4)[OF inv, of p] by (cases "p = n") auto
  have c5: "m \<in> set (get_neighbors W H obs c) \<and>
            (\<exists>gn gc'. ((g_score st)(n \<mapsto> gc + 1)) m = Some gn \<and>
                       ((g_score st)(n \<mapsto> gc + 1)) c = Some gc' \<and> gc' < gn)"
    if cf: "((came_from st)(n \<mapsto> current)) m = Some c" for m c
  proof (cases "m = n")
    case True
    with cf have "c = current" by simp
    with True nb gc nc show ?thesis by simp
  next
    case False
    with cf have old: "came_from st m = Some c" by simp
    from astar_invD(6)[OF inv old] obtain gm gc0 where
      g: "g_score st m = Some gm" "g_score st c = Some gc0" "gc0 < gm" by blast
    have "\<exists>gc'. ((g_score st)(n \<mapsto> gc + 1)) c = Some gc' \<and> gc' < gm"
    proof (cases "c = n")
      case True
      with g(2) better have "gc + 1 < gc0" by simp
      with g(3) True show ?thesis by simp
    next
      case False
      with g show ?thesis by simp
    qed
    with astar_invD(5)[OF inv old] g(1) False show ?thesis by simp
  qed
  have c6: "((g_score st)(n \<mapsto> gc + 1)) (snd item) \<noteq> None" if "item \<in> set heap" for item
  proof (cases "item = (f, n)")
    case True
    then show ?thesis by simp
  next
    case False
    with that heap have "item \<in> set (open_set st)" by auto
    from astar_invD(7)[OF inv this] show ?thesis by simp
  qed
  let ?st' = "st\<lparr>open_set := heap, came_from := (came_from st)(n \<mapsto> current),
                  g_score := (g_score st)(n \<mapsto> gc + 1), f_score := fs\<rparr>"
  have sel: "g_score ?st' = (g_score st)(n \<mapsto> gc + 1)"
    "came_from ?st' = (came_from st)(n \<mapsto> current)" "open_set ?st' = heap"
    by simp_all
  show ?thesis
    unfolding astar_inv_def sel using c1 c2 c3 c4 c5 c6 by blast
qed

lemma relax_neighbors_inv:
  "astar_inv W H obs start st \<Longrightarrow> set ns \<subseteq> set (get_neighbors W H obs current) \<Longrightarrow>
     g_score st current \<noteq> None \<Longrightarrow> relax_neighbors goal current ns st = Inr st' \<Longrightarrow>
     astar_inv W H obs start st'"
proof (induction ns arbitrary: st)
  case Nil
  then show ?case by simp
next
  case (Cons n ns)
  from Cons.prems(3) obtain gc where gc: "g_score st current = Some gc" by blast
  show ?case
  proof (cases "case g_score st n of None \<Rightarrow> True | Some g \<Rightarrow> gc + 1 < g")
    case False
    with Cons.prems(4) gc have "relax_neighbors goal current ns st = Inr st'"
      by (simp add: Let_def)
    from Cons.IH[OF Cons.prems(1) _ Cons.prems(3) this] Cons.prems(2) show ?thesis by simp
  next
    case True
    let ?f = "gc + 1 + heuristic n goal"
    from True Cons.prems(4) gc obtain heap where
      hp: "heappush (open_set st) (?f, n) = Inr heap"
      by (cases "heappush (open_set st) (?f, n)") (simp_all add: Let_def)
    let ?st1 = "st\<lparr>open_set := heap, came_from := (came_from st)(n \<mapsto> current),
                    g_score := (g_score st)(n \<mapsto> gc + 1),
                    f_score := (f_score st)(n \<mapsto> ?f)\<rparr>"
    from True Cons.prems(4) gc hp have rec: "relax_neighbors goal current ns ?st1 = Inr st'"
      by (simp add: Let_def)
    have nb: "n \<in> set (get_neighbors W H obs current)" using Cons.prems(2) by simp
    have inv1: "astar_inv W H obs start ?st1"
      by (rule relax_step_inv[OF Cons.prems(1) nb gc True heappush_set[OF hp]])
    have g1: "g_score ?st1 current \<noteq> None" using gc by simp
    from Cons.IH[OF inv1 _ g1 rec] Cons.prems(2) show ?thesis by simp
  qed
qed

lemma astar_inv_initial:
  "astar_inv W H obs start
     \<lparr>open_set = [(0, start)], came_from = Map.empty, g_score = [start \<mapsto> 0], f_score = fs\<rparr>"
  by (simp add: astar_inv_def)

lemma astar_inv_pop:
  "astar_inv W H obs start st \<Longrightarrow> set heap \<subseteq> set (open_set st) \<Longrightarrow>
     astar_inv W H obs start (st\<lparr>open_set := heap\<rparr>)"
proof -
  assume inv: "astar_inv W H obs start st" and sub: "set heap \<subseteq> set (open_set st)"
  have sel: "g_score (st\<lparr>open_set := heap\<rparr>) = g_score st"
    "came_from (st\<lparr>open_set := heap\<rparr>) = came_from st" "open_set (st\<lparr>open_set := heap\<rparr>) = heap"
    by simp_all
  show ?thesis
    unfolding astar_inv_def sel
    using astar_invD(1,2)[OF inv] astar_invD(3,4,5,6)[OF inv] astar_invD(7)[OF inv] sub
    by blast
qed

lemma chain_path_valid:
  assumes inv: "astar_inv W H obs start st"
    and start: "in_bounds W H start" "start \<notin> obs"
    and g: "g_score st goal \<noteq> None"
    and ch: "chain (came_from st) goal xs"
  shows "valid_grid_path W H obs start goal (rev (xs @ [start]))"
proof -
  from chain_valid[OF inv ch g]
  have all: "list_all (\<lambda>p. in_bounds W H p \<and> p \<notin> obs) xs"
    and succ: "successively (\<lambda>a b. distance_to b a = 1) (xs @ [start])"
    and e: "xs = [] \<longrightarrow> goal = start" and h: "xs \<noteq> [] \<longrightarrow> hd xs = goal"
    by auto
  have "hd (rev (xs @ [start])) = start" by simp
  moreover have "last (rev (xs @ [start])) = goal"
    using e h by (cases xs) simp_all
  moreover have "list_all (\<lambda>p. in_bounds W H p \<and> p \<notin> obs) (rev (xs @ [start]))"
    using all start by (simp add: list_all_iff)
  moreover have "successively (\<lambda>a b. distance_to a b = 1) (rev (xs @ [start]))"
    using succ by (simp only: successively_rev)
  ultimately show ?thesis unfolding valid_grid_path_def by blast
qed

lemma a_star_loop_valid:
  assumes run: "a_star_loop W H obs start goal st = Some res"
  shows "\<forall>path. res = Inr path \<longrightarrow> path \<noteq> [] \<longrightarrow> in_bounds W H start \<longrightarrow> start \<notin> obs \<longrightarrow>
           astar_inv W H obs start st \<longrightarrow> valid_grid_path W H obs start goal path"
proof (rule a_star_loop.raw_induct[OF _ run])
  fix loop :: "int \<Rightarrow> int \<Rightarrow> Position set \<Rightarrow> Position \<Rightarrow> Position \<Rightarrow> AStar
                 \<Rightarrow> (Fault + Position list) option"
  fix W H obs start goal st res
  assume IH: "\<And>W H obs start goal st res. loop W H obs start goal st = Some res \<Longrightarrow>
      \<forall>path. res = Inr path \<longrightarrow> path \<noteq> [] \<longrightarrow> in_bounds W H start \<longrightarrow> start \<notin> obs \<longrightarrow>
           astar_inv W H obs start st \<longrightarrow> valid_grid_path W H obs start goal path"
  assume body: "(if open_set st = [] then Some (Inr [])
      else case heappop (open_set st) of
          Inl e \<Rightarrow> Some (Inl e)
        | Inr ((current_f, current), heap) \<Rightarrow>
            if current = goal then
              (case reconstruct (came_from st) current [] of
                 None \<Rightarrow> None
               | Some path \<Rightarrow> Some (Inr (rev (path @ [start]))))
            else
              (case relax_neighbors goal current (get_neighbors W H obs current)
                      (st\<lparr>open_set := heap\<rparr>) of
                 Inl e \<Rightarrow> Some (Inl e)
               | Inr st' \<Rightarrow> loop W H obs start goal st')) = Some res"
  show "\<forall>path. res = Inr path \<longrightarrow> path \<noteq> [] \<longrightarrow> in_bounds W H start \<longrightarrow> start \<notin> obs \<longrightarrow>
           astar_inv W H obs start st \<longrightarrow> valid_grid_path W H obs start goal path"
  proof (intro allI impI)
    fix path
    assume res: "res = Inr path" and ne: "path \<noteq> []"
      and start: "in_bounds W H start" "start \<notin> obs"
      and inv: "astar_inv W H obs start st"
    from body res ne have nonempty: "open_set st \<noteq> []" by (auto split: if_splits)
    from body res nonempty obtain current_f current heap where
      pop: "heappop (open_set st) = Inr ((current_f, current), heap)"
      by (cases "heappop (open_set st)") auto
    from heappop_set[OF pop] have mem: "(current_f, current) \<in> set (open_set st)"
      and sub: "set heap \<subseteq> set (open_set st)" by auto
    from astar_invD(7)[OF inv mem] have gcur: "g_score st current \<noteq> None" by simp
    show "valid_grid_path W H obs start goal path"
    proof (cases "current = goal")
      case True
      with body res nonempty pop obtain p where
        rc: "reconstruct (came_from st) goal [] = Some p" and path: "path = rev (p @ [start])"
        by (auto split: option.splits)
      from reconstruct_chain[OF rc] have "chain (came_from st) goal p" by simp
      from chain_path_valid[OF inv start _ this] gcur True path show ?thesis by simp
    next
      case False
      let ?st0 = "st\<lparr>open_set := heap\<rparr>"
      from body res nonempty pop False obtain st' where
        rl: "relax_neighbors goal current (get_neighbors W H obs current) ?st0 = Inr st'"
        and lp: "loop W H obs start goal st' = Some res"
        by (auto split: sum.splits)
      have inv0: "astar_inv W H obs start ?st0" by (rule astar_inv_pop[OF inv sub])
      have "g_score ?st0 current \<noteq> None" using gcur by simp
      from relax_neighbors_inv[OF inv0 subset_refl this rl]
      have "astar_inv W H obs start st'" .
      with IH[OF lp] res ne start show ?thesis by blast
    qed
  qed
qed

text \<open>
  Claim C10. For in-bounds start and goal, whenever \<open>a_star_path\<close> returns a non-empty
  list, the list is a valid grid path: it begins at the start and ends at the goal,
  every position on it is inside the grid and not an obstacle, and consecutive
  positions are at Manhattan distance 1.
\<close>

theorem a_star_path_valid:
  assumes "in_bounds W H start" and "in_bounds W H goal"
    and "a_star_path W H obs start goal = Some (Inr path)" and "path \<noteq> []"
  shows "valid_grid_path W H obs start goal path"
proof -
  from assms(3,4) have free: "start \<notin> obs"
    and run: "a_star_loop W H obs start goal
        \<lparr>open_set = [(0, start)], came_from = Map.empty,
         g_score = [start \<mapsto> 0], f_score = [start \<mapsto> heuristic start goal]\<rparr> = Some (Inr path)"
    by (auto simp: a_star_path_def split: if_splits)
  from a_star_loop_valid[OF run] assms(1,4) free astar_inv_initial show ?thesis by blast
qed

theorem a_star_path_valid_witness:
  "in_bounds 3 1 (0, 0) \<and> in_bounds 3 1 (2, 0) \<and>
   a_star_path 3 1 {} (0, 0) (2, 0) = Some (Inr [(0, 0), (1, 0), (2, 0)]) \<and>
   valid_grid_path 3 1 {} (0, 0) (2, 0) [(0, 0), (1, 0), (2, 0)]"
proof -
  have b: "in_bounds 3 1 (0, 0)" "in_bounds 3 1 (2, 0)" by (simp_all add: in_bounds_def)
  have r: "a_star_path 3 1 {} (0, 0) (2, 0) = Some (Inr [(0, 0), (1, 0), (2, 0)])"
    by code_simp
  from a_star_path_valid[OF b r] b r show ?thesis by simp
qed

section \<open>Scheduler: no equipment is claimed twice\<close>

lemma no_shared_equipment_iff:
  "no_shared_equipment A s \<longleftrightarrow>
     (\<forall>t1 \<in> A. \<forall>t2 \<in> A. \<forall>e. t1 \<noteq> t2 \<and> assigned_to s t1 = Some e \<longrightarrow> assigned_to s t2 \<noteq> Some e)"
  (is "?L \<longleftrightarrow> ?R")
proof
  assume l: ?L
  show ?R
  proof (intro ballI allI impI)
    fix t1 t2 e
    assume t: "t1 \<in> A" "t2 \<in> A" and h: "t1 \<noteq> t2 \<and> assigned_to s t1 = Some e"
    from l have "\<forall>t1 \<in> A. \<forall>t2 \<in> A. t1 \<noteq> t2 \<longrightarrow>
        assigned_to s t1 = None \<or> assigned_to s t1 \<noteq> assigned_to s t2"
      unfolding no_shared_equipment_def .
    from bspec[OF bspec[OF this t(1)] t(2)] h
    have "assigned_to s t1 \<noteq> assigned_to s t2" by simp
    with h show "assigned_to s t2 \<noteq> Some e" by simp
  qed
next
  assume r: ?R
  show ?L
    unfolding no_shared_equipment_def
  proof (intro ballI impI)
    fix t1 t2
    assume t: "t1 \<in> A" "t2 \<in> A" and ne: "t1 \<noteq> t2"
    show "assigned_to s t1 = None \<or> assigned_to s t1 \<noteq> assigned_to s t2"
    proof (cases "assigned_to s t1")
      case None
      then show ?thesis by simp
    next
      case (Some e)
      from bspec[OF bspec[OF r t(1)] t(2)] ne Some
      have "assigned_to s t2 \<noteq> Some e" by simp
      with Some show ?thesis by simp
    qed
  qed
qed

lemma claims_held_iff:
  "claims_held A s \<longleftrightarrow> (\<forall>t \<in> A. \<forall>e. assigned_to s t = Some e \<longrightarrow> \<not> idle_in s e)"
  unfolding claims_held_def by (auto split: option.splits)

lemma assigned_task_id:
  assumes "assigned_to s t \<noteq> None"
  shows "t \<in> task_ids s"
proof (rule ccontr)
  assume "t \<notin> task_ids s"
  then have "map_of (tasks s) t = None" by (simp add: task_ids_def map_of_eq_None_iff)
  with assms show False by (simp add: assigned_to_def)
qed

lemma no_shared_equipment_all:
  "no_shared_equipment UNIV s \<longleftrightarrow> no_shared_equipment (task_ids s) s"
proof
  assume "no_shared_equipment UNIV s"
  then show "no_shared_equipment (task_ids s) s" unfolding no_shared_equipment_def by blast
next
  assume h: "no_shared_equipment (task_ids s) s"
  show "no_shared_equipment UNIV s"
    unfolding no_shared_equipment_def
  proof (intro ballI impI)
    fix t1 t2 :: string
    assume ne: "t1 \<noteq> t2"
    show "assigned_to s t1 = None \<or> assigned_to s t1 \<noteq> assigned_to s t2"
    proof (cases "assigned_to s t1 = None \<or> assigned_to s t2 = None")
      case True
      then show ?thesis by auto
    next
      case False
      then have "t1 \<in> task_ids s" "t2 \<in> task_ids s" by (auto intro: assigned_task_id)
      with h ne show ?thesis unfolding no_shared_equipment_def by blast
    qed
  qed
qed

lemma claims_held_all: "claims_held UNIV s \<longleftrightarrow> claims_held (task_ids s) s"
proof
  assume "claims_held UNIV s"
  then show "claims_held (task_ids s) s" unfolding claims_held_iff by blast
next
  assume h: "claims_held (task_ids s) s"
  show "claims_held UNIV s"
    unfolding claims_held_iff
  proof (intro ballI allI impI)
    fix t e assume a: "assigned_to s t = Some e"
    then have "t \<in> task_ids s" by (auto intro: assigned_task_id)
    with h a show "\<not> idle_in s e" unfolding claims_held_iff by blast
  qed
qed

lemma assign_failure:
  "assign_equipment_to_task s task_id equipment_id = (False, s') \<Longrightarrow> s' = s"
  by (auto simp: assign_equipment_to_task_def split: option.splits if_splits)

lemma assign_success:
  assumes "assign_equipment_to_task s task_id equipment_id = (True, s')"
  shows "idle_in s equipment_id"
    and "assigned_to s' t = (if t = task_id then Some equipment_id else assigned_to s t)"
    and "idle_in s' e \<longleftrightarrow> idle_in s e \<and> e \<noteq> equipment_id"
  using assms
  by (auto simp: assign_equipment_to_task_def assigned_to_def idle_in_def AList.update_conv'
      split: option.splits if_splits)

lemma assign_keeps_exclusion:
  assumes ok: "assign_equipment_to_task s task_id equipment_id = (True, s')"
    and ns: "no_shared_equipment A s" and ch: "claims_held A s"
  shows "no_shared_equipment (insert task_id A) s' \<and> claims_held (insert task_id A) s'"
proof -
  note a = assign_success[OF ok]
  have fresh: "assigned_to s t \<noteq> Some equipment_id" if "t \<in> A" for t
  proof -
    from ch that have "\<forall>e. assigned_to s t = Some e \<longrightarrow> \<not> idle_in s e"
      unfolding claims_held_iff by blast
    with a(1) show ?thesis by blast
  qed
  have "no_shared_equipment (insert task_id A) s'"
    unfolding no_shared_equipment_iff
  proof (intro ballI allI impI)
    fix t1 t2 e
    assume t1: "t1 \<in> insert task_id A" and t2: "t2 \<in> insert task_id A"
      and h: "t1 \<noteq> t2 \<and> assigned_to s' t1 = Some e"
    show "assigned_to s' t2 \<noteq> Some e"
    proof (cases "t1 = task_id")
      case True
      with h have e: "e = equipment_id" and "t2 \<noteq> task_id" by (auto simp: a(2))
      with t2 have "t2 \<in> A" by simp
      from fresh[OF this] \<open>t2 \<noteq> task_id\<close> e show ?thesis by (simp add: a(2))
    next
      case False
      with t1 h have t1A: "t1 \<in> A" and old: "assigned_to s t1 = Some e"
        by (simp_all add: a(2))
      show ?thesis
      proof (cases "t2 = task_id")
        case True
        with fresh[OF t1A] old show ?thesis by (simp add: a(2))
      next
        case False
        with t2 have "t2 \<in> A" by simp
        with ns t1A old h have "assigned_to s t2 \<noteq> Some e"
          unfolding no_shared_equipment_iff by blast
        with False show ?thesis by (simp add: a(2))
      qed
    qed
  qed
  moreover have "claims_held (insert task_id A) s'"
    unfolding claims_held_iff
  proof (intro ballI allI impI)
    fix t e
    assume t: "t \<in> insert task_id A" and h: "assigned_to s' t = Some e"
    show "\<not> idle_in s' e"
    proof (cases "t = task_id")
      case True
      with h have "e = equipment_id" by (simp add: a(2))
      then show ?thesis by (simp add: a(3))
    next
      case False
      with t h have "t \<in> A" "assigned_to s t = Some e" by (simp_all add: a(2))
      with ch have "\<not> idle_in s e" unfolding claims_held_iff by blast
      then show ?thesis by (simp add: a(3))
    qed
  qed
  ultimately show ?thesis by simp
qed

lemma exclusion_mono:
  "no_shared_equipment B s \<Longrightarrow> A \<subseteq> B \<Longrightarrow> no_shared_equipment A s"
  unfolding no_shared_equipment_iff by blast

lemma schedule_loop_exclusion:
  "no_shared_equipment B s \<Longrightarrow> claims_held B s \<Longrightarrow> set sched \<subseteq> B \<Longrightarrow>
     schedule_loop s ts sched = (r, s') \<Longrightarrow>
     \<exists>B'. B \<subseteq> B' \<and> no_shared_equipment B' s' \<and> claims_held B' s' \<and>
          (\<forall>sch. r = Inr sch \<longrightarrow> set sch \<subseteq> B')"
proof (induction ts arbitrary: s sched B)
  case Nil
  then show ?case by auto
next
  case (Cons a ts)
  note IH = Cons.IH and ns = Cons.prems(1) and ch = Cons.prems(2) and sub = Cons.prems(3)
  obtain task_id task where a: "a = (task_id, task)" by (cases a)
  from Cons.prems(4) a have run: "schedule_loop s ((task_id, task) # ts) sched = (r, s')"
    by simp
  let ?suitable = "filter (\<lambda>(eid, eq). can_perform_task (equipment_class eq) (task_type task) \<and>
                               status eq = IDLE) (equipment s)"
  show ?case
  proof (cases ?suitable)
    case Nil
    with run have "schedule_loop s ts sched = (r, s')" by simp
    from IH[OF ns ch sub this] show ?thesis .
  next
    case suit: (Cons first others)
    let ?m = "min_by_key (\<lambda>(eid, eq). calculate_task_equipment_distance s task eq) first others"
    show ?thesis
    proof (cases ?m)
      case (Inl e)
      with suit run have "r = Inl e" "s' = s" by simp_all
      with ns ch show ?thesis by auto
    next
      case (Inr best)
      obtain best_id best_equipment where best: "best = (best_id, best_equipment)" by (cases best)
      obtain ok s1 where asg: "assign_equipment_to_task s task_id best_id = (ok, s1)" by force
      show ?thesis
      proof (cases ok)
        case True
        with asg have asg': "assign_equipment_to_task s task_id best_id = (True, s1)" by simp
        from suit Inr best asg' run
        have rec: "schedule_loop s1 ts (sched @ [task_id]) = (r, s')" by simp
        from assign_keeps_exclusion[OF asg' ns ch]
        have k: "no_shared_equipment (insert task_id B) s1" "claims_held (insert task_id B) s1"
          by auto
        have "set (sched @ [task_id]) \<subseteq> insert task_id B" using sub by auto
        from IH[OF k this rec] show ?thesis by blast
      next
        case False
        with asg have asg': "assign_equipment_to_task s task_id best_id = (False, s1)" by simp
        then have "s1 = s" by (rule assign_failure)
        with suit Inr best asg' run
        have rec: "schedule_loop s ts sched = (r, s')" by simp
        from IH[OF ns ch sub this] show ?thesis .
      qed
    qed
  qed
qed

text \<open>
  Claim C7, as amended. After a call of \<open>optimize_task_schedule\<close>, whether it returns
  or raises, no two different tasks scheduled by that call refer to the same equipment:
  each piece of equipment is claimed at most once per pass. If, before the call, no two
  tasks of the store referred to the same equipment and no equipment a task referred to
  was Idle, then after the call no two tasks of the store refer to the same equipment.
\<close>

theorem optimize_schedule_exclusive:
  assumes "optimize_task_schedule s = (r, s')"
  shows "(\<forall>sch. r = Inr sch \<longrightarrow> no_shared_equipment (set sch) s') \<and>
         (no_shared_equipment (task_ids s) s \<and> claims_held (task_ids s) s \<longrightarrow>
            no_shared_equipment (task_ids s') s')"
proof -
  let ?ts = "sort_key schedule_key
               (filter (\<lambda>(task_id, task). task_status task = PENDING) (tasks s))"
  from assms have run: "schedule_loop s ?ts [] = (r, s')"
    by (simp add: optimize_task_schedule_def)
  have e: "no_shared_equipment {} s" "claims_held {} s"
    by (simp_all add: no_shared_equipment_def claims_held_def)
  from schedule_loop_exclusion[OF e _ run]
  obtain B' where "no_shared_equipment B' s'" "\<forall>sch. r = Inr sch \<longrightarrow> set sch \<subseteq> B'" by auto
  then have pass: "\<forall>sch. r = Inr sch \<longrightarrow> no_shared_equipment (set sch) s'"
    using exclusion_mono by blast
  have "no_shared_equipment (task_ids s') s'"
    if "no_shared_equipment (task_ids s) s" "claims_held (task_ids s) s"
  proof -
    from that have "no_shared_equipment UNIV s" "claims_held UNIV s"
      by (simp_all add: no_shared_equipment_all claims_held_all)
    from schedule_loop_exclusion[OF this _ run]
    obtain B' where "UNIV \<subseteq> B'" "no_shared_equipment B' s'" by auto
    then show ?thesis using exclusion_mono by blast
  qed
  with pass show ?thesis by blast
qed

theorem optimize_schedule_exclusive_witness:
  "fst (optimize_task_schedule two_truck_yard) = Inr [''TASK1'', ''TASK2''] \<and>
   assigned_to (snd (optimize_task_schedule two_truck_yard)) ''TASK1'' = Some ''T002'' \<and>
   assigned_to (snd (optimize_task_schedule two_truck_yard)) ''TASK2'' = Some ''T001'' \<and>
   no_shared_equipment {''TASK1'', ''TASK2''} (snd (optimize_task_schedule two_truck_yard)) \<and>
   no_shared_equipment (task_ids (snd (optimize_task_schedule two_truck_yard)))
     (snd (optimize_task_schedule two_truck_yard))"
proof -
  have r: "fst (optimize_task_schedule two_truck_yard) = Inr [''TASK1'', ''TASK2'']"
    "assigned_to (snd (optimize_task_schedule two_truck_yard)) ''TASK1'' = Some ''T002''"
    "assigned_to (snd (optimize_task_schedule two_truck_yard)) ''TASK2'' = Some ''T001''"
    by code_simp+
  have none: "assigned_to two_truck_yard t = None" for t
    by (simp add: assigned_to_def two_truck_yard_def create_internal_transfer_task_def
        Task_init_def yard_def TMSSystem_init_def tms_add_equipment_def tms_add_warehouse_def
        tms_add_product_def Let_def)
  have pre: "no_shared_equipment (task_ids two_truck_yard) two_truck_yard"
    "claims_held (task_ids two_truck_yard) two_truck_yard"
    by (simp_all add: no_shared_equipment_def claims_held_def none)
  from optimize_schedule_exclusive[OF surjective_pairing, of two_truck_yard] r(1) pre
  have "no_shared_equipment (set [''TASK1'', ''TASK2'']) (snd (optimize_task_schedule two_truck_yard))"
    "no_shared_equipment (task_ids (snd (optimize_task_schedule two_truck_yard)))
       (snd (optimize_task_schedule two_truck_yard))"
    by simp_all
  with r show ?thesis by simp
qed

text \<open>
  The claim as written fails on a store with a finished task: \<open>execute_task\<close>
  releases the truck and leaves the task's \<open>assigned_equipment\<close> in place, so the next
  pass gives the same truck to a second task.
\<close>

theorem optimize_schedule_shared_counterexample:
  "map_option task_status (map_of (tasks rerun_yard) ''TASK1'') = Some COMPLETED \<and>
   assigned_to rerun_yard ''TASK1'' = Some ''T001'' \<and>
   idle_in rerun_yard ''T001'' \<and>
   fst (optimize_task_schedule rerun_yard) = Inr [''TASK2''] \<and>
   assigned_to (snd (optimize_task_schedule rerun_yard)) ''TASK1'' = Some ''T001'' \<and>
   assigned_to (snd (optimize_task_schedule rerun_yard)) ''TASK2'' = Some ''T001'' \<and>
   \<not> no_shared_equipment (task_ids (snd (optimize_task_schedule rerun_yard)))
        (snd (optimize_task_schedule rerun_yard))"
  by code_simp

section \<open>Task lifecycle: execution does not read the status\<close>

lemma effects_status [simp]:
  "execute_ship_transport_task s (t\<lparr>task_status := st\<rparr>) = execute_ship_transport_task s t"
  "execute_internal_transfer_task s (t\<lparr>task_status := st\<rparr>) =
     execute_internal_transfer_task s t"
  "execute_loading_task s (t\<lparr>task_status := st\<rparr>) = execute_loading_task s t"
  "execute_unloading_task s (t\<lparr>task_status := st\<rparr>) = execute_unloading_task s t"
  by (simp_all add: execute_ship_transport_task_def execute_internal_transfer_task_def
      execute_loading_task_def execute_unloading_task_def cong: option.case_cong)

lemma dispatch_status [simp]: "dispatch s (t\<lparr>task_status := st\<rparr>) = dispatch s t"
  by (simp add: dispatch_def)

lemma release_equipment_status [simp]:
  "release_equipment s (t\<lparr>task_status := st\<rparr>) = release_equipment s t"
  by (simp add: release_equipment_def)

lemma try_body_status [simp]:
  "try_body save_ok s k (t\<lparr>task_status := st\<rparr>) = try_body save_ok s k t"
  by (simp add: try_body_def split: prod.splits option.splits)

lemma map_entry_twice:
  "AList.map_entry k f (AList.map_entry k g al) = AList.map_entry k (\<lambda>x. f (g x)) al"
  by (induction al) auto

lemma map_entry_absent: "map_of al k = None \<Longrightarrow> AList.map_entry k f al = al"
  by (induction al) (auto split: if_splits)

lemma start_execution_fun: "start_execution = task_status_update (\<lambda>_. IN_PROGRESS)"
  by (rule ext) (simp add: start_execution_def)

lemma start_after_set_status:
  "modify_task k start_execution (set_task_status k st s) = modify_task k start_execution s"
  by (simp add: modify_task_def set_task_status_def map_entry_twice start_execution_fun)

lemma execute_task_status_blind:
  "execute_task save_ok (set_task_status k st s) k = execute_task save_ok s k"
proof (cases "map_of (tasks s) k")
  case None
  then have "AList.map_entry k (\<lambda>t. t\<lparr>task_status := st\<rparr>) (tasks s) = tasks s"
    by (rule map_entry_absent)
  then have "set_task_status k st s = s" by (simp add: set_task_status_def modify_task_def)
  then show ?thesis by simp
next
  case (Some task)
  then have "map_of (tasks (set_task_status k st s)) k = Some (task\<lparr>task_status := st\<rparr>)"
    by (simp add: set_task_status_def map_of_modify_task)
  with Some show ?thesis
    by (simp add: execute_task_def start_after_set_status)
qed

lemma assign_status:
  "status_of (snd (assign_equipment_to_task s task_id equipment_id)) k = status_of s k"
  by (auto simp: assign_equipment_to_task_def status_of_def AList.update_conv'
      split: option.splits)

lemma schedule_loop_status:
  "status_of (snd (schedule_loop s ts sched)) k = status_of s k"
proof (induction ts arbitrary: s sched)
  case Nil
  show ?case by simp
next
  case (Cons a ts)
  obtain task_id task where a: "a = (task_id, task)" by (cases a)
  let ?suitable = "filter (\<lambda>(eid, eq). can_perform_task (equipment_class eq) (task_type task) \<and>
                               status eq = IDLE) (equipment s)"
  show ?case
  proof (cases ?suitable)
    case Nil
    with Cons.IH[of s sched] a show ?thesis by simp
  next
    case suit: (Cons first others)
    let ?m = "min_by_key (\<lambda>(eid, eq). calculate_task_equipment_distance s task eq) first others"
    show ?thesis
    proof (cases ?m)
      case (Inl e)
      with suit a show ?thesis by simp
    next
      case (Inr best)
      obtain best_id best_equipment where best: "best = (best_id, best_equipment)" by (cases best)
      obtain ok s1 where asg: "assign_equipment_to_task s task_id best_id = (ok, s1)" by force
      have s1: "status_of s1 k = status_of s k"
        using assign_status[of s task_id best_id k] asg by simp
      show ?thesis
      proof (cases ok)
        case True
        with suit Inr best asg a Cons.IH[of s1 "sched @ [task_id]"] s1 show ?thesis by simp
      next
        case False
        with suit Inr best asg a Cons.IH[of s1 sched] s1 show ?thesis by simp
      qed
    qed
  qed
qed

lemma optimize_status: "status_of (snd (optimize_task_schedule s)) k = status_of s k"
  by (simp add: optimize_task_schedule_def schedule_loop_status)

lemma execute_task_other_tasks:
  assumes "k \<noteq> task_id"
  shows "map_of (tasks (snd (execute_task save_ok s task_id))) k = map_of (tasks s) k"
proof (cases "map_of (tasks s) task_id")
  case None
  then show ?thesis by (simp add: execute_task_def)
next
  case (Some task)
  let ?s0 = "modify_task task_id start_execution s"
  obtain r s' where tb: "try_body save_ok ?s0 task_id task = (r, s')" by force
  from try_body_tasks[OF tb] assms
  have "map_of (tasks s') k = map_of (tasks ?s0) k" by auto
  then have s': "map_of (tasks s') k = map_of (tasks s) k"
    using assms by (simp add: map_of_modify_task)
  show ?thesis
  proof (cases r)
    case None
    with Some tb s' show ?thesis by (simp add: execute_task_def)
  next
    case (Some e)
    with \<open>map_of (tasks s) task_id = Some task\<close> tb s' assms show ?thesis
      by (simp add: execute_task_def map_of_modify_task)
  qed
qed

text \<open>
  Claim C8, as amended. \<open>execute_task\<close> does not require the task to be Pending: on a
  registered task, the value it returns and the state it leaves are the same whatever
  status the task had before the call (Pending, InProgress, Completed, Failed or
  Cancelled), so a Completed or Failed task is run again and its effect applied again.
  The call leaves that task Completed when it returns \<open>True\<close> and Failed when it
  returns \<open>False\<close>, and changes no other task. \<open>assign_equipment_to_task\<close> and
  \<open>optimize_task_schedule\<close> never change the status of any task.
\<close>

theorem execute_task_ignores_status:
  assumes "map_of (tasks s) task_id = Some task"
  shows "(\<forall>st. execute_task save_ok (set_task_status task_id st s) task_id =
               execute_task save_ok s task_id) \<and>
         status_of (snd (execute_task save_ok s task_id)) task_id =
           Some (if fst (execute_task save_ok s task_id) then COMPLETED else FAILED) \<and>
         (\<forall>k. k \<noteq> task_id \<longrightarrow>
              map_of (tasks (snd (execute_task save_ok s task_id))) k = map_of (tasks s) k) \<and>
         (\<forall>k e. status_of (snd (assign_equipment_to_task s k e)) = status_of s) \<and>
         status_of (snd (optimize_task_schedule s)) = status_of s"
proof -
  from execute_task_terminal[OF assms, of save_ok]
  have "status_of (snd (execute_task save_ok s task_id)) task_id =
           Some (if fst (execute_task save_ok s task_id) then COMPLETED else FAILED)"
    by (auto simp: status_of_def)
  then show ?thesis
    by (simp add: execute_task_status_blind execute_task_other_tasks assign_status
        optimize_status fun_eq_iff)
qed

text \<open>
  On a task that is already Completed: the second call equals the call on the same task
  set back to Pending, and moves one more unit from the source to the target.
\<close>

theorem execute_task_ignores_status_witness:
  "(let s1 = snd (execute_task True (yard_transfer ''PW001'' [(''P001'', 1)]) ''TASK1'');
        r = execute_task True s1 ''TASK1''
    in status_of s1 ''TASK1'' = Some COMPLETED \<and>
       quantity_in s1 ''TW001'' ''P001'' = Some (Some 4) \<and>
       quantity_in s1 ''PW001'' ''P001'' = Some (Some 1) \<and>
       r = execute_task True (set_task_status ''TASK1'' PENDING s1) ''TASK1'' \<and>
       fst r \<and> status_of (snd r) ''TASK1'' = Some COMPLETED \<and>
       quantity_in (snd r) ''TW001'' ''P001'' = Some (Some 3) \<and>
       quantity_in (snd r) ''PW001'' ''P001'' = Some (Some 2))"
proof -
  let ?s1 = "snd (execute_task True (yard_transfer ''PW001'' [(''P001'', 1)]) ''TASK1'')"
  have reg: "map_of (tasks ?s1) ''TASK1'' =
      Some ((Task_init INTERNAL_TRANSFER)\<lparr>task_status := COMPLETED,
         assigned_equipment := Some ''T001'', md_source_warehouse_id := Some ''TW001'',
         md_target_warehouse_id := Some ''PW001'', md_products := Some [(''P001'', 1)]\<rparr>)"
    by code_simp
  have ev: "status_of ?s1 ''TASK1'' = Some COMPLETED"
    "quantity_in ?s1 ''TW001'' ''P001'' = Some (Some 4)"
    "quantity_in ?s1 ''PW001'' ''P001'' = Some (Some 1)"
    "fst (execute_task True ?s1 ''TASK1'')"
    "quantity_in (snd (execute_task True ?s1 ''TASK1'')) ''TW001'' ''P001'' = Some (Some 3)"
    "quantity_in (snd (execute_task True ?s1 ''TASK1'')) ''PW001'' ''P001'' = Some (Some 2)"
    by code_simp+
  from execute_task_ignores_status[OF reg, of True] ev show ?thesis
    by (simp add: Let_def)
qed

end
